theory Spec2Isabelle
  imports Complex_Main
begin

section \<open>Data model (services/enhanced\_multi\_agent\_service.py)\<close>

text \<open>
  Python strings that carry user-facing text are sequences of Unicode code points;
  they are modelled as lists of code points. Task identifiers are ASCII literals of the
  source and are kept as HOL strings.
\<close>

type_synonym ustr = "nat list"

datatype TaskType =
  SEARCH | SIMILARITY_SEARCH | ANALYSIS | RECOMMENDATION | COMPARISON | WISHLIST | CHAT

datatype Priority = HIGH | MEDIUM | LOW

datatype Status = Pending | Running | Completed | Failed

text \<open>
  \<open>task.result\<close> is a dictionary whose keys depend on the capability. A field is
  \<open>None\<close> when the key is absent. A results dictionary
  \<open>{"results": [...], "total_count": n}\<close> is represented by its \<open>results\<close> list, the
  only entry the aggregator reads; \<open>other_keys\<close> records whether the dictionary holds
  keys beyond the listed ones (\<open>save_history_path\<close>, \<open>error\<close>, ...), which matters for
  the truth value of the dictionary only. The comparison provider stores the listings it
  compared as a plain list under \<open>compared_properties\<close> (and writes no
  \<open>comparison_data\<close>); the aggregator reads \<open>comparison_data\<close>.
\<close>

record 'r task_result =
  response :: "ustr option"
  search_results :: "'r list option"
  recommendation_response :: "ustr option"
  recommendation_data :: "'r list option"
  comparison_response :: "ustr option"
  comparison_data :: "'r list option"
  compared_properties :: "'r list option"
  analysis_response :: "ustr option"
  analyzed_data :: "'r list option"
  wishlist_data :: "'r list option"
  other_keys :: bool

record 'r AgentTask =
  task_id :: string
  task_type :: TaskType
  data_query :: ustr
  data_response :: "ustr option"
  priority :: Priority
  dependencies :: "string list"
  status :: Status
  result :: "'r task_result option"
  error :: "ustr option"

section \<open>Result aggregator: \<open>_combine_results\<close>\<close>

datatype ResultKind = Chat_kind | Search_result_kind

record 'r combine_state =
  final_search_results :: "'r list"
  result_type :: ResultKind
  search_results_set :: bool

definition task_order :: "TaskType \<Rightarrow> nat" where
  "task_order ty = (case ty of
      SEARCH \<Rightarrow> 1 | SIMILARITY_SEARCH \<Rightarrow> 2 | RECOMMENDATION \<Rightarrow> 3 | COMPARISON \<Rightarrow> 4
    | ANALYSIS \<Rightarrow> 5 | WISHLIST \<Rightarrow> 6 | CHAT \<Rightarrow> 7)"

text \<open>\<open>d.get(key, {}).get("results")\<close>: the list, empty when the key is absent.\<close>

definition get_results :: "'r list option \<Rightarrow> 'r list" where
  "get_results d = (case d of None \<Rightarrow> [] | Some rs \<Rightarrow> rs)"

text \<open>\<open>d.get(key, "")\<close> for a text entry.\<close>

definition get_text :: "ustr option \<Rightarrow> ustr" where
  "get_text d = (case d of None \<Rightarrow> [] | Some s \<Rightarrow> s)"

text \<open>Truth value of the dictionary \<open>task.result\<close>: present and not empty.\<close>

definition result_truthy :: "'r task_result option \<Rightarrow> bool" where
  "result_truthy ro = (case ro of
      None \<Rightarrow> False
    | Some r \<Rightarrow> response r \<noteq> None \<or> search_results r \<noteq> None
        \<or> recommendation_response r \<noteq> None \<or> recommendation_data r \<noteq> None
        \<or> comparison_response r \<noteq> None \<or> comparison_data r \<noteq> None
        \<or> compared_properties r \<noteq> None
        \<or> analysis_response r \<noteq> None \<or> analyzed_data r \<noteq> None
        \<or> wishlist_data r \<noteq> None \<or> other_keys r)"

text \<open>
  The branch of the loop body taken for a completed task with a non-empty result, one
  case per capability as in the source. The text sections appended to
  \<open>combined_response\<close> do not influence the two outputs modelled here and are left out.
\<close>

definition combine_completed ::
  "'r combine_state \<Rightarrow> TaskType \<Rightarrow> 'r task_result \<Rightarrow> 'r combine_state" where
  "combine_completed st ty r = (case ty of
      SEARCH \<Rightarrow>
        (let st1 = (if \<not> search_results_set st \<and> get_results (search_results r) \<noteq> []
                    then st\<lparr>final_search_results := get_results (search_results r),
                            search_results_set := True\<rparr>
                    else st)
         in if get_results (search_results r) \<noteq> [] \<or> get_text (response r) \<noteq> []
            then st1\<lparr>result_type := Search_result_kind\<rparr> else st1)
    | SIMILARITY_SEARCH \<Rightarrow>
        (let st1 = (if \<not> search_results_set st \<and> get_results (search_results r) \<noteq> []
                    then st\<lparr>final_search_results := get_results (search_results r),
                            search_results_set := True\<rparr>
                    else st)
         in if get_results (search_results r) \<noteq> [] \<or> get_text (response r) \<noteq> []
            then st1\<lparr>result_type := Search_result_kind\<rparr> else st1)
    | RECOMMENDATION \<Rightarrow>
        (if \<not> search_results_set st \<and> get_results (recommendation_data r) \<noteq> []
         then st\<lparr>final_search_results := get_results (recommendation_data r),
                 result_type := Search_result_kind, search_results_set := True\<rparr>
         else st)
    | COMPARISON \<Rightarrow>
        (if \<not> search_results_set st \<and> get_results (comparison_data r) \<noteq> []
         then st\<lparr>final_search_results := get_results (comparison_data r),
                 result_type := Search_result_kind, search_results_set := True\<rparr>
         else st)
    | ANALYSIS \<Rightarrow>
        (if \<not> search_results_set st \<and> get_results (analyzed_data r) \<noteq> []
         then st\<lparr>final_search_results := get_results (analyzed_data r),
                 result_type := Search_result_kind, search_results_set := True\<rparr>
         else st)
    | WISHLIST \<Rightarrow>
        (if \<not> search_results_set st then
           (if get_results (wishlist_data r) \<noteq> []
            then st\<lparr>final_search_results := get_results (wishlist_data r),
                    result_type := Search_result_kind, search_results_set := True\<rparr>
            else if get_results (search_results r) \<noteq> []
            then st\<lparr>final_search_results := get_results (search_results r),
                    result_type := Search_result_kind, search_results_set := True\<rparr>
            else st)
         else st)
    | CHAT \<Rightarrow> st)"

definition combine_step :: "'r combine_state \<Rightarrow> 'r AgentTask \<Rightarrow> 'r combine_state" where
  "combine_step st t =
     (if status t = Completed \<and> result_truthy (result t)
      then (case result t of None \<Rightarrow> st | Some r \<Rightarrow> combine_completed st (task_type t) r)
      else st)"

definition combine_init :: "'r combine_state" where
  "combine_init = \<lparr>final_search_results = [], result_type = Chat_kind,
                   search_results_set = False\<rparr>"

text \<open>
  \<open>completed_tasks.sort(key=...)\<close> is a stable sort; so is \<open>sort_key\<close>. The loop is a
  left fold over the sorted tasks.
\<close>

definition combine_results :: "'r AgentTask list \<Rightarrow> 'r combine_state" where
  "combine_results completed_tasks =
     foldl combine_step combine_init (sort_key (\<lambda>t. task_order (task_type t)) completed_tasks)"

section \<open>Scheduler: \<open>execute_task\<close>, \<open>check_dependencies\<close>, \<open>process_user_message\<close>\<close>

text \<open>
  How the call of \<open>_execute_task_internal\<close> under \<open>asyncio.wait_for\<close> ends, as far as
  \<open>execute_task\<close> handles it: it returns a result dictionary, it raises an \<open>Exception\<close>,
  or \<open>asyncio.TimeoutError\<close> reaches the handler. \<open>_execute_task_internal\<close> never
  suspends (it contains no \<open>await\<close>), so the timer of \<open>wait_for\<close> cannot interrupt it;
  the third case is a timeout error raised by the provider itself. The provider
  (searches, language model calls) is outside the program and is a parameter \<open>prov\<close> of
  the model.
\<close>

datatype 'r outcome = Done "'r task_result" | Raised ustr | TimedOut

definition timeout_config :: "TaskType \<Rightarrow> ustr" where
  "timeout_config ty = (case ty of
      SEARCH \<Rightarrow> [49, 53, 46, 48] | SIMILARITY_SEARCH \<Rightarrow> [50, 48, 46, 48]
    | ANALYSIS \<Rightarrow> [49, 48, 46, 48] | RECOMMENDATION \<Rightarrow> [49, 50, 46, 48]
    | COMPARISON \<Rightarrow> [49, 50, 46, 48] | WISHLIST \<Rightarrow> [53, 46, 48] | CHAT \<Rightarrow> [56, 46, 48])"

definition empty_result :: "'r task_result" where
  "empty_result = \<lparr>response = None, search_results = None, recommendation_response = None,
     recommendation_data = None, comparison_response = None, comparison_data = None,
     compared_properties = None, analysis_response = None, analyzed_data = None,
     wishlist_data = None, other_keys = False\<rparr>"

text \<open>
  \<open>execute_task\<close>: a returned result leaves the task \<open>completed\<close>; a timeout and any
  exception are caught and leave it \<open>failed\<close>, with the message in \<open>error\<close> and an error
  dictionary (\<open>error\<close> and \<open>response\<close> keys) as result.
\<close>

definition execute_task :: "('r AgentTask \<Rightarrow> 'r outcome) \<Rightarrow> 'r AgentTask \<Rightarrow> 'r AgentTask" where
  "execute_task prov task = (case prov (task\<lparr>status := Running\<rparr>) of
      Done r \<Rightarrow> task\<lparr>status := Completed, result := Some r\<rparr>
    | TimedOut \<Rightarrow> task\<lparr>status := Failed,
        error := Some ([51089, 50629, 32, 53440, 51076, 50500, 50883, 32, 40]
                  @ timeout_config (task_type task) @ [52488, 32, 52488, 44284, 41]),
        result := Some (empty_result\<lparr>response := Some
            ([51089, 50629, 32, 49892, 54665, 32, 51473, 32, 53440, 51076, 50500, 50883, 51060,
              32, 48156, 49373, 54664, 49845, 45768, 45796, 32, 40]
             @ timeout_config (task_type task) @ [52488, 32, 52488, 44284, 41]),
            other_keys := True\<rparr>)\<rparr>
    | Raised e \<Rightarrow> task\<lparr>status := Failed, error := Some e,
        result := Some (empty_result\<lparr>response := Some
            ([51089, 50629, 32, 49892, 54665, 32, 51473, 32, 50724, 47448, 44032, 32, 48156,
              49373, 54664, 49845, 45768, 45796, 58, 32] @ e),
            other_keys := True\<rparr>)\<rparr>)"

text \<open>
  The scheduler's state: the dictionary \<open>pending_tasks\<close> of the run (its values in
  insertion order; the key of a task is its \<open>task_id\<close>), the dictionary
  \<open>self.completed_tasks\<close> of the orchestrator instance, and the list
  \<open>completed_results\<close> of the run.
\<close>

record 'r sched_state =
  pending_tasks :: "'r AgentTask list"
  completed_tasks :: "string \<rightharpoonup> 'r AgentTask"
  completed_results :: "'r AgentTask list"

text \<open>\<open>d[task.task_id] = task\<close>: a known key keeps its position, a new one goes last.\<close>

fun dict_put :: "'r AgentTask \<Rightarrow> 'r AgentTask list \<Rightarrow> 'r AgentTask list" where
  "dict_put t [] = [t]"
| "dict_put t (u # us) = (if task_id u = task_id t then t # us else u # dict_put t us)"

text \<open>\<open>{task.task_id: task for task in tasks}\<close>\<close>

definition mk_pending :: "'r AgentTask list \<Rightarrow> 'r AgentTask list" where
  "mk_pending tasks = foldl (\<lambda>d t. dict_put t d) [] tasks"

definition check_dependencies :: "(string \<rightharpoonup> 'r AgentTask) \<Rightarrow> 'r AgentTask \<Rightarrow> bool" where
  "check_dependencies completed task =
     list_all (\<lambda>dep_id. case completed dep_id of
                  None \<Rightarrow> False
                | Some c \<Rightarrow> status c = Completed) (dependencies task)"

definition priority_value :: "Priority \<Rightarrow> nat" where
  "priority_value p = (case p of HIGH \<Rightarrow> 1 | MEDIUM \<Rightarrow> 2 | LOW \<Rightarrow> 3)"

text \<open>
  Recording an executed task: \<open>self.completed_tasks[id] = task\<close>,
  \<open>completed_results.append(task)\<close>, \<open>pending_tasks.pop(id, None)\<close>.
\<close>

definition record_result :: "'r sched_state \<Rightarrow> 'r AgentTask \<Rightarrow> 'r sched_state" where
  "record_result st r =
     st\<lparr>completed_tasks := (completed_tasks st)(task_id r \<mapsto> r),
        completed_results := completed_results st @ [r],
        pending_tasks := filter (\<lambda>t. task_id t \<noteq> task_id r) (pending_tasks st)\<rparr>"

definition ready_tasks :: "'r sched_state \<Rightarrow> 'r AgentTask list" where
  "ready_tasks st = filter (check_dependencies (completed_tasks st)) (pending_tasks st)"

text \<open>
  The dependency-bearing tasks run one after the other, each checked again right before
  it is dispatched.
\<close>

definition sequential_step ::
  "('r AgentTask \<Rightarrow> 'r outcome) \<Rightarrow> 'r sched_state \<Rightarrow> 'r AgentTask \<Rightarrow> 'r sched_state" where
  "sequential_step prov st task =
     (if check_dependencies (completed_tasks st) task
      then record_result st (execute_task prov task) else st)"

text \<open>
  One pass of the \<open>while\<close> body after the ready set was found non-empty: stable sort by
  priority, the dependency-free tasks gathered and recorded in order, then the
  dependency-bearing ones. This is the pass in which every call of \<open>execute_task\<close>
  returns its task, so that \<open>isinstance(result, AgentTask)\<close> holds for every gathered
  result; the pass with calls that do not return is \<open>run_iteration_guarded\<close> below.
\<close>

definition run_iteration ::
  "('r AgentTask \<Rightarrow> 'r outcome) \<Rightarrow> 'r sched_state \<Rightarrow> 'r sched_state" where
  "run_iteration prov st =
     (let ready = sort_key (\<lambda>t. priority_value (priority t)) (ready_tasks st);
          parallel_tasks = filter (\<lambda>t. dependencies t = []) ready;
          sequential_tasks = filter (\<lambda>t. dependencies t \<noteq> []) ready;
          st1 = foldl record_result st (map (execute_task prov) parallel_tasks)
      in foldl (sequential_step prov) st1 sequential_tasks)"

lemma task_id_execute_task [simp]: "task_id (execute_task prov t) = task_id t"
  by (simp add: execute_task_def split: outcome.splits)

lemma length_pending_record_le:
  "length (pending_tasks (record_result st r)) \<le> length (pending_tasks st)"
  by (simp add: record_result_def)

lemma length_pending_record_less:
  "t \<in> set (pending_tasks st) \<Longrightarrow> task_id t = task_id r \<Longrightarrow>
     length (pending_tasks (record_result st r)) < length (pending_tasks st)"
  by (auto simp: record_result_def intro!: length_filter_less)

lemma length_pending_foldl_record:
  "length (pending_tasks (foldl record_result st rs)) \<le> length (pending_tasks st)"
proof (induction rs arbitrary: st)
  case Nil
  then show ?case by simp
next
  case (Cons r rs)
  have "length (pending_tasks (foldl record_result (record_result st r) rs))
          \<le> length (pending_tasks (record_result st r))"
    by (rule Cons.IH)
  also have "\<dots> \<le> length (pending_tasks st)"
    by (rule length_pending_record_le)
  finally show ?case by simp
qed

lemma length_pending_sequential_step:
  "length (pending_tasks (sequential_step prov st t)) \<le> length (pending_tasks st)"
  by (simp add: sequential_step_def length_pending_record_le)

lemma length_pending_foldl_sequential:
  "length (pending_tasks (foldl (sequential_step prov) st ts)) \<le> length (pending_tasks st)"
proof (induction ts arbitrary: st)
  case Nil
  then show ?case by simp
next
  case (Cons t ts)
  have "length (pending_tasks (foldl (sequential_step prov) (sequential_step prov st t) ts))
          \<le> length (pending_tasks (sequential_step prov st t))"
    by (rule Cons.IH)
  also have "\<dots> \<le> length (pending_tasks st)"
    by (rule length_pending_sequential_step)
  finally show ?case by simp
qed

lemma run_iteration_decreases:
  assumes "ready_tasks st \<noteq> []"
  shows "length (pending_tasks (run_iteration prov st)) < length (pending_tasks st)"
proof -
  define ready where "ready = sort_key (\<lambda>t. priority_value (priority t)) (ready_tasks st)"
  define par where "par = filter (\<lambda>t. dependencies t = []) ready"
  define seqs where "seqs = filter (\<lambda>t. dependencies t \<noteq> []) ready"
  define st1 where "st1 = foldl record_result st (map (execute_task prov) par)"
  have it: "run_iteration prov st = foldl (sequential_step prov) st1 seqs"
    by (simp add: run_iteration_def Let_def ready_def par_def seqs_def st1_def)
  have ready_set: "set ready = set (ready_tasks st)"
    by (simp add: ready_def)
  have ready_sub: "set ready \<subseteq> set (pending_tasks st)"
    by (auto simp: ready_set ready_tasks_def)
  have ready_chk: "\<And>t. t \<in> set ready \<Longrightarrow> check_dependencies (completed_tasks st) t"
    by (auto simp: ready_set ready_tasks_def)
  have ready_ne: "ready \<noteq> []"
    using assms ready_set by (metis set_empty)
  show ?thesis
  proof (cases par)
    case (Cons p ps)
    have p_in: "p \<in> set (pending_tasks st)"
      using Cons ready_sub par_def by (metis filter_is_subset list.set_intros(1) subsetD)
    have "length (pending_tasks st1)
            \<le> length (pending_tasks (record_result st (execute_task prov p)))"
      by (simp add: st1_def Cons length_pending_foldl_record)
    also have "\<dots> < length (pending_tasks st)"
      by (rule length_pending_record_less[OF p_in]) simp
    finally have "length (pending_tasks st1) < length (pending_tasks st)" .
    with length_pending_foldl_sequential[of prov st1 seqs] show ?thesis
      by (simp add: it)
  next
    case Nil
    then have st1_eq: "st1 = st" by (simp add: st1_def)
    have "seqs = ready"
      using Nil by (simp add: par_def seqs_def filter_empty_conv)
    with ready_ne obtain s ss where seqs_eq: "seqs = s # ss" and s_in: "s \<in> set ready"
      by (cases seqs) auto
    have s_pend: "s \<in> set (pending_tasks st)" using s_in ready_sub by blast
    have step: "sequential_step prov st s = record_result st (execute_task prov s)"
      by (simp add: sequential_step_def ready_chk[OF s_in])
    have "length (pending_tasks (foldl (sequential_step prov) st1 seqs))
            \<le> length (pending_tasks (record_result st (execute_task prov s)))"
      by (simp add: seqs_eq st1_eq step length_pending_foldl_sequential)
    also have "\<dots> < length (pending_tasks st)"
      by (rule length_pending_record_less[OF s_pend]) simp
    finally show ?thesis by (simp add: it)
  qed
qed

text \<open>
  The \<open>while pending_tasks\<close> loop: it ends when nothing is pending, and breaks (after a
  logged warning) when tasks are pending but none is ready.
\<close>

function run_loop ::
  "('r AgentTask \<Rightarrow> 'r outcome) \<Rightarrow> 'r sched_state \<Rightarrow> 'r sched_state" where
  "run_loop prov st =
     (if pending_tasks st = [] then st
      else if ready_tasks st = [] then st
      else run_loop prov (run_iteration prov st))"
  by pat_completeness auto
termination
  by (relation "measure (\<lambda>(prov, st). length (pending_tasks st))")
     (simp_all add: run_iteration_decreases)

declare run_loop.simps [simp del]

text \<open>
  One call of \<open>process_user_message\<close> on the task list returned by the parser, for an
  orchestrator whose \<open>self.completed_tasks\<close> currently is \<open>completed\<close>. The final state
  holds the list handed to the aggregator and the dictionary the instance keeps.
\<close>

definition run_tasks ::
  "('r AgentTask \<Rightarrow> 'r outcome) \<Rightarrow> (string \<rightharpoonup> 'r AgentTask) \<Rightarrow> 'r AgentTask list
     \<Rightarrow> 'r sched_state" where
  "run_tasks prov completed tasks =
     run_loop prov \<lparr>pending_tasks = mk_pending tasks, completed_tasks = completed,
                    completed_results = []\<rparr>"

definition process_user_message ::
  "('r AgentTask \<Rightarrow> 'r outcome) \<Rightarrow> (string \<rightharpoonup> 'r AgentTask) \<Rightarrow> 'r AgentTask list
     \<Rightarrow> 'r combine_state \<times> (string \<rightharpoonup> 'r AgentTask)" where
  "process_user_message prov completed tasks =
     (let st = run_tasks prov completed tasks
      in (combine_results (completed_results st), completed_tasks st))"

section \<open>Scheduler: exceptions that leave \<open>execute_task\<close>\<close>

text \<open>
  \<open>execute_task\<close> catches \<open>asyncio.TimeoutError\<close> and \<open>Exception\<close>. An exception can still
  leave it: one that is no \<open>Exception\<close> (\<open>asyncio.CancelledError\<close>), or one raised by the
  logging calls inside its handlers. The call then returns no task, and the task object
  keeps what had been assigned to its \<open>status\<close>, \<open>result\<close> and \<open>error\<close> up to that
  point. For a task, \<open>esc task\<close> is \<open>None\<close> when the call returns, and the three fields
  as the escaping exception leaves them otherwise.
\<close>

type_synonym 'r left_fields = "Status \<times> 'r task_result option \<times> ustr option"

definition leave :: "'r AgentTask \<Rightarrow> 'r left_fields \<Rightarrow> 'r AgentTask" where
  "leave task l = task\<lparr>status := fst l, result := fst (snd l), error := snd (snd l)\<rparr>"

definition try_execute_task ::
  "('r AgentTask \<Rightarrow> 'r outcome) \<Rightarrow> ('r AgentTask \<Rightarrow> 'r left_fields option) \<Rightarrow> 'r AgentTask
     \<Rightarrow> 'r left_fields + 'r AgentTask" where
  "try_execute_task prov esc task =
     (case esc task of None \<Rightarrow> Inr (execute_task prov task) | Some l \<Rightarrow> Inl l)"

text \<open>
  A call that did not return records nothing; the object under the task's key in
  \<open>pending_tasks\<close> is the one the call has written to.
\<close>

definition record_escape ::
  "'r sched_state \<Rightarrow> 'r AgentTask \<Rightarrow> 'r left_fields \<Rightarrow> 'r sched_state" where
  "record_escape st task l =
     st\<lparr>pending_tasks :=
          map (\<lambda>u. if task_id u = task_id task then leave u l else u) (pending_tasks st)\<rparr>"

text \<open>
  The parallel batch: \<open>asyncio.gather(..., return_exceptions=True)\<close> hands an escaped
  exception back as the result of its call, and
  \<open>if isinstance(result, AgentTask)\<close> records the tasks only. The task of an escaped call
  stays in \<open>pending_tasks\<close>.
\<close>

definition parallel_step ::
  "('r AgentTask \<Rightarrow> 'r outcome) \<Rightarrow> ('r AgentTask \<Rightarrow> 'r left_fields option) \<Rightarrow> 'r sched_state
     \<Rightarrow> 'r AgentTask \<Rightarrow> 'r sched_state" where
  "parallel_step prov esc st task =
     (case try_execute_task prov esc task of
        Inr r \<Rightarrow> record_result st r
      | Inl l \<Rightarrow> record_escape st task l)"

text \<open>
  The sequential tasks are awaited one by one without a guard: an exception that leaves
  \<open>execute_task\<close> there leaves the loop as well (\<open>Inl\<close>, with the state at that point) and
  reaches the handler of \<open>process_user_message\<close>.
\<close>

fun sequential_guarded ::
  "('r AgentTask \<Rightarrow> 'r outcome) \<Rightarrow> ('r AgentTask \<Rightarrow> 'r left_fields option) \<Rightarrow> 'r sched_state
     \<Rightarrow> 'r AgentTask list \<Rightarrow> 'r sched_state + 'r sched_state" where
  "sequential_guarded prov esc st [] = Inr st"
| "sequential_guarded prov esc st (task # ts) =
     (if check_dependencies (completed_tasks st) task
      then (case try_execute_task prov esc task of
              Inl l \<Rightarrow> Inl (record_escape st task l)
            | Inr r \<Rightarrow> sequential_guarded prov esc (record_result st r) ts)
      else sequential_guarded prov esc st ts)"

definition run_iteration_guarded ::
  "('r AgentTask \<Rightarrow> 'r outcome) \<Rightarrow> ('r AgentTask \<Rightarrow> 'r left_fields option) \<Rightarrow> 'r sched_state
     \<Rightarrow> 'r sched_state + 'r sched_state" where
  "run_iteration_guarded prov esc st =
     (let ready = sort_key (\<lambda>t. priority_value (priority t)) (ready_tasks st);
          parallel_tasks = filter (\<lambda>t. dependencies t = []) ready;
          sequential_tasks = filter (\<lambda>t. dependencies t \<noteq> []) ready;
          st1 = foldl (parallel_step prov esc) st parallel_tasks
      in sequential_guarded prov esc st1 sequential_tasks)"

text \<open>
  How a run ends, when it ends: the loop is left (nothing pending, or nothing ready) and
  the results go to the aggregator, or an exception ends the request.
\<close>

datatype 'r run_end = Ended "'r sched_state" | Aborted "'r sched_state"

text \<open>The state a run ended in.\<close>

fun end_state :: "'r run_end \<Rightarrow> 'r sched_state" where
  "end_state (Ended s) = s"
| "end_state (Aborted s) = s"

text \<open>
  The \<open>while pending_tasks\<close> loop with its iterations counted; \<open>escapes n\<close> tells which
  calls of iteration \<open>n\<close> do not return. A task whose call escaped in the parallel batch
  is still pending and ready in the next iteration, so the loop need not end: \<open>None\<close>
  stands for a run that never returns.
\<close>

partial_function (option) run_loop_guarded ::
  "('r AgentTask \<Rightarrow> 'r outcome) \<Rightarrow> (nat \<Rightarrow> 'r AgentTask \<Rightarrow> 'r left_fields option) \<Rightarrow> nat
     \<Rightarrow> 'r sched_state \<Rightarrow> 'r run_end option" where
  "run_loop_guarded prov escapes n st =
     (if pending_tasks st = [] then Some (Ended st)
      else if ready_tasks st = [] then Some (Ended st)
      else (case run_iteration_guarded prov (escapes n) st of
              Inl st' \<Rightarrow> Some (Aborted st')
            | Inr st' \<Rightarrow> run_loop_guarded prov escapes (Suc n) st'))"

definition run_tasks_guarded ::
  "('r AgentTask \<Rightarrow> 'r outcome) \<Rightarrow> (nat \<Rightarrow> 'r AgentTask \<Rightarrow> 'r left_fields option)
     \<Rightarrow> (string \<rightharpoonup> 'r AgentTask) \<Rightarrow> 'r AgentTask list \<Rightarrow> 'r run_end option" where
  "run_tasks_guarded prov escapes completed tasks =
     run_loop_guarded prov escapes 0
       \<lparr>pending_tasks = mk_pending tasks, completed_tasks = completed,
        completed_results = []\<rparr>"

text \<open>
  The vocabulary of the aggregator's claims. The record list of a task is the list under
  the key \<open>_combine_results\<close> reads for the task's capability; the fixed precedence of
  the capabilities is written out as a list, and a task list in precedence order keeps,
  within one capability, the order it came in.
\<close>

definition task_records :: "'r AgentTask \<Rightarrow> 'r list" where
  "task_records t = (case result t of
      None \<Rightarrow> []
    | Some r \<Rightarrow> (case task_type t of
          SEARCH \<Rightarrow> get_results (search_results r)
        | SIMILARITY_SEARCH \<Rightarrow> get_results (search_results r)
        | RECOMMENDATION \<Rightarrow> get_results (recommendation_data r)
        | COMPARISON \<Rightarrow> get_results (comparison_data r)
        | ANALYSIS \<Rightarrow> get_results (analyzed_data r)
        | WISHLIST \<Rightarrow> (if get_results (wishlist_data r) \<noteq> [] then get_results (wishlist_data r)
                       else get_results (search_results r))
        | CHAT \<Rightarrow> []))"

definition produces_records :: "'r AgentTask \<Rightarrow> bool" where
  "produces_records t = (status t = Completed \<and> task_records t \<noteq> [])"


definition ex_task :: "TaskType \<Rightarrow> 'r task_result \<Rightarrow> 'r AgentTask" where
  "ex_task ty r = \<lparr>task_id = ''t'', task_type = ty, data_query = [], data_response = None,
     priority = MEDIUM, dependencies = [], status = Completed, result = Some r, error = None\<rparr>"


definition precedence :: "TaskType list" where
  "precedence =
     [SEARCH, SIMILARITY_SEARCH, RECOMMENDATION, COMPARISON, ANALYSIS, WISHLIST, CHAT]"

definition in_precedence_order :: "'r AgentTask list \<Rightarrow> 'r AgentTask list" where
  "in_precedence_order ts = concat (map (\<lambda>ty. filter (\<lambda>t. task_type t = ty) ts) precedence)"

text \<open>
  Results as the providers write them: a comparison of two listings (response text and
  \<open>compared_properties\<close>), an analysis of one listing (response text and
  \<open>analyzed_data\<close>), and the comparison result as the aggregator expects it, with the
  listings under \<open>comparison_data\<close>.
\<close>

definition comparison_result :: "nat task_result" where
  "comparison_result = empty_result\<lparr>comparison_response := Some [67],
     compared_properties := Some [1, 2]\<rparr>"

definition analysis_result :: "nat task_result" where
  "analysis_result = empty_result\<lparr>analysis_response := Some [65],
     analyzed_data := Some [3]\<rparr>"

definition expected_comparison_result :: "nat task_result" where
  "expected_comparison_result = empty_result\<lparr>comparison_response := Some [67],
     comparison_data := Some [1, 2]\<rparr>"

text \<open>The dependency edges of a task list, and the conditions of a run on it.\<close>

definition dep_rel :: "'r AgentTask list \<Rightarrow> (string \<times> string) set" where
  "dep_rel tasks = {(d, task_id t) | t d. t \<in> set tasks \<and> d \<in> set (dependencies t)}"

definition deps_resolved :: "'r AgentTask list \<Rightarrow> bool" where
  "deps_resolved tasks = (\<forall>t\<in>set tasks. set (dependencies t) \<subseteq> task_id ` set tasks)"

definition all_succeed :: "('r AgentTask \<Rightarrow> 'r outcome) \<Rightarrow> 'r AgentTask list \<Rightarrow> bool" where
  "all_succeed prov tasks = (\<forall>t\<in>set tasks. \<exists>r. prov (t\<lparr>status := Running\<rparr>) = Done r)"

text \<open>
  A task as the parser creates it: the \<open>AgentTask\<close> constructor's defaults for status,
  result and error.
\<close>

definition new_task :: "string \<Rightarrow> TaskType \<Rightarrow> Priority \<Rightarrow> string list \<Rightarrow> 'r AgentTask" where
  "new_task tid ty prio deps = \<lparr>task_id = tid, task_type = ty, data_query = [],
     data_response = None, priority = prio, dependencies = deps, status = Pending,
     result = None, error = None\<rparr>"

text \<open>
  Task lists the parser returns: the keyword path's search-plus-analysis and
  search-plus-recommendation pairs, and a three-step chain of the complex path whose
  priorities come from the language model. A provider that always returns, and one whose
  search raises (\<open>save_search_history_tool.invoke\<close> is called outside the \<open>try\<close> of the
  search branch).
\<close>

definition search_analysis_tasks :: "nat AgentTask list" where
  "search_analysis_tasks =
     [new_task ''search_001'' SEARCH HIGH [],
      new_task ''analysis_001'' ANALYSIS MEDIUM [''search_001'']]"

definition search_rec_tasks :: "nat AgentTask list" where
  "search_rec_tasks =
     [new_task ''search_rec_001'' SEARCH HIGH [],
      new_task ''recommendation_002'' RECOMMENDATION MEDIUM [''search_rec_001'']]"

definition complex_tasks :: "nat AgentTask list" where
  "complex_tasks =
     [new_task ''llm_complex_001'' SEARCH HIGH [],
      new_task ''llm_complex_002'' RECOMMENDATION MEDIUM [''llm_complex_001''],
      new_task ''llm_complex_003'' COMPARISON HIGH [''llm_complex_002'']]"

definition search_raises :: "nat AgentTask \<Rightarrow> nat outcome" where
  "search_raises t = (if task_type t = SEARCH then Raised [] else Done empty_result)"

definition always_done :: "nat AgentTask \<Rightarrow> nat outcome" where
  "always_done t = Done empty_result"

section \<open>Hybrid retrieval: \<open>services/agents/search_agent.py\<close>\<close>

text \<open>
  The listing store and the embedding service are outside the program. A store is given
  by what its three queries answer (or that they raise); the embedding service by what
  its successive calls answer. Python floats are idealised as exact rationals: the
  scores are the same expressions, evaluated without rounding.
\<close>

datatype store_error = Store_error ustr

record 'i doc =
  doc_id :: 'i
  nearest_station :: "ustr option"
  distance_to_station :: "rat option"

text \<open>The dictionary returned by \<open>parse_query\<close>.\<close>

record search_params =
  gu :: "ustr option"
  dong :: "ustr option"
  dep_max :: "int option"
  mon_max :: "int option"
  require_rent :: "ustr option"
  require_subway :: bool
  max_dist :: rat
  station_name :: "ustr option"

record 'i store =
  lexical_query :: "search_params \<Rightarrow> store_error + 'i doc list"
  vector_query :: "rat list \<Rightarrow> search_params \<Rightarrow> store_error + 'i doc list"
  find_ids :: "'i list \<Rightarrow> store_error + 'i doc list"

definition VECTOR_WEIGHT :: rat where "VECTOR_WEIGHT = 3 / 10"
definition TEXT_WEIGHT :: rat where "TEXT_WEIGHT = 7 / 10"
definition RANK_CONSTANT :: nat where "RANK_CONSTANT = 60"

text \<open>
  \<open>get_embedding\<close>: up to three calls of the service (call \<open>i\<close> answers \<open>svc i\<close>, \<open>None\<close>
  when it raises); the first answer is returned, and a vector of 1536 zeros after three
  failures.
\<close>

fun try_embedding :: "(nat \<Rightarrow> rat list option) \<Rightarrow> nat \<Rightarrow> nat \<Rightarrow> rat list option" where
  "try_embedding svc i 0 = None"
| "try_embedding svc i (Suc n) =
     (case svc i of Some v \<Rightarrow> Some v | None \<Rightarrow> try_embedding svc (Suc i) n)"

definition zero_vector :: "rat list" where
  "zero_vector = replicate 1536 0"

definition get_embedding :: "(nat \<Rightarrow> rat list option) \<Rightarrow> rat list" where
  "get_embedding svc =
     (case try_embedding svc 0 3 of Some v \<Rightarrow> v | None \<Rightarrow> zero_vector)"

text \<open>
  \<open>ranked_results[k] += v\<close> on a \<open>defaultdict(float)\<close>; the dictionary is kept as an
  association list in insertion order.
\<close>

fun score_add :: "'i \<Rightarrow> rat \<Rightarrow> ('i \<times> rat) list \<Rightarrow> ('i \<times> rat) list" where
  "score_add k v [] = [(k, 0 + v)]"
| "score_add k v ((k', s) # xs) =
     (if k' = k then (k', s + v) # xs else (k', s) # score_add k v xs)"

text \<open>One \<open>for i, doc in enumerate(results)\<close> loop, entered at index \<open>i\<close>.\<close>

fun rrf_pass :: "rat \<Rightarrow> nat \<Rightarrow> 'i doc list \<Rightarrow> ('i \<times> rat) list \<Rightarrow> ('i \<times> rat) list" where
  "rrf_pass w i [] acc = acc"
| "rrf_pass w i (d # ds) acc =
     rrf_pass w (Suc i) ds
       (score_add (doc_id d) (w * (1 / of_nat (RANK_CONSTANT + (i + 1)))) acc)"

definition ranked_results :: "'i doc list \<Rightarrow> 'i doc list \<Rightarrow> ('i \<times> rat) list" where
  "ranked_results text_results vector_results =
     rrf_pass VECTOR_WEIGHT 0 vector_results (rrf_pass TEXT_WEIGHT 0 text_results [])"

definition score_of :: "('i \<times> rat) list \<Rightarrow> 'i \<Rightarrow> rat" where
  "score_of rr k = (case map_of rr k of None \<Rightarrow> 0 | Some s \<Rightarrow> s)"

text \<open>
  \<open>sorted(keys, key=score, reverse=True)\<close>: a stable sort, descending; equal scores keep
  their insertion order.
\<close>

definition sorted_ids :: "('i \<times> rat) list \<Rightarrow> 'i list" where
  "sorted_ids rr = sort_key (\<lambda>k. - score_of rr k) (map fst rr)"

text \<open>\<open>list.index\<close>, used only on members of the list.\<close>

fun index_of :: "'a \<Rightarrow> 'a list \<Rightarrow> nat" where
  "index_of x [] = 0"
| "index_of x (y # ys) = (if y = x then 0 else Suc (index_of x ys))"

datatype 'i search_outcome =
    Found "(nat \<times> 'i doc) list"
  | No_match
  | Requires_location

text \<open>The final station filter; a missing distance counts as infinite.\<close>

definition station_filter :: "search_params \<Rightarrow> 'i doc \<Rightarrow> bool" where
  "station_filter params meta =
     (nearest_station meta = station_name params
      \<and> (case distance_to_station meta of None \<Rightarrow> False | Some x \<Rightarrow> x \<le> max_dist params))"

definition text_truthy :: "ustr option \<Rightarrow> bool" where
  "text_truthy s = (case s of None \<Rightarrow> False | Some t \<Rightarrow> t \<noteq> [])"

text \<open>
  \<open>hybrid_search\<close>, from the parsed parameters on. A raising lexical or vector query is
  caught and counts as an empty pass. \<open>collection.find\<close> is not guarded: when it raises,
  so does the search; so does \<open>top_k_ids.index\<close> on a document the store returns without
  having been asked for it. \<open>top_k\<close> is a natural number here (every caller uses the
  default 30).
\<close>

definition hybrid_search ::
  "search_params \<Rightarrow> 'i store \<Rightarrow> (nat \<Rightarrow> rat list option) \<Rightarrow> nat
     \<Rightarrow> store_error + 'i search_outcome" where
  "hybrid_search params st svc top_k =
     (let text_results = (case lexical_query st params of Inl e \<Rightarrow> [] | Inr ds \<Rightarrow> ds);
          query_embedding = get_embedding svc;
          vector_results =
            (case vector_query st query_embedding params of Inl e \<Rightarrow> [] | Inr ds \<Rightarrow> ds);
          rr = ranked_results text_results vector_results
      in if rr = [] then Inr No_match
         else
           (let top_k_ids = take top_k (sorted_ids rr)
            in case find_ids st top_k_ids of
                 Inl e \<Rightarrow> Inl e
               | Inr found \<Rightarrow>
                   if \<exists>d\<in>set found. doc_id d \<notin> set top_k_ids
                   then Inl (Store_error [])
                   else
                     (let final_results = sort_key (\<lambda>d. index_of (doc_id d) top_k_ids) found;
                          metas = (if require_subway params \<and> text_truthy (station_name params)
                                   then filter (station_filter params) final_results
                                   else final_results)
                      in if metas = [] then Inr No_match
                         else Inr (Found (zip [1 ..< Suc (length metas)] metas)))))"

definition has_location :: "search_params \<Rightarrow> bool" where
  "has_location params =
     (text_truthy (gu params) \<or> text_truthy (dong params) \<or> text_truthy (station_name params))"

text \<open>
  \<open>search_properties\<close>: the query is parsed once for the location check and once more
  inside \<open>hybrid_search\<close>; the two answers of the parser are \<open>params\<close> and
  \<open>params'\<close>.
\<close>

definition search_properties ::
  "search_params \<Rightarrow> search_params \<Rightarrow> 'i store \<Rightarrow> (nat \<Rightarrow> rat list option) \<Rightarrow> nat
     \<Rightarrow> store_error + 'i search_outcome" where
  "search_properties params params' st svc top_k =
     (if \<not> has_location params then Inr Requires_location
      else hybrid_search params' st svc top_k)"












section \<open>Reference resolution: \<open>services/agents/utils.py\<close>\<close>

text \<open>
  The regular expressions of \<open>utils.py\<close> run over Python strings; each is modelled by the
  function that computes what \<open>re\<close> returns for that pattern, over lists of code points.
  The character classes: \<open>[\<dots>]\<close> from U+AC00 to U+D7A3 (Hangul syllables), \<open>[0-9]\<close>,
  and \<open>\s\<close> (the Unicode white space of \<open>re\<close> on \<open>str\<close> patterns). The three syllables
  that end a location token are U+B3D9, U+C5ED and U+AD6C (dong, station, gu); the
  ordinal marker is U+BC88.
\<close>

definition is_hangul :: "nat \<Rightarrow> bool" where
  "is_hangul c = (44032 \<le> c \<and> c \<le> 55203)"


definition is_space :: "nat \<Rightarrow> bool" where
  "is_space c = ((9 \<le> c \<and> c \<le> 13) \<or> (28 \<le> c \<and> c \<le> 32) \<or> c = 133 \<or> c = 160
     \<or> c = 5760 \<or> (8192 \<le> c \<and> c \<le> 8202) \<or> c = 8232 \<or> c = 8233 \<or> c = 8239
     \<or> c = 8287 \<or> c = 12288)"

definition loc_end :: "nat \<Rightarrow> bool" where
  "loc_end c = (c = 46041 \<or> c = 50669 \<or> c = 44396)"


text \<open>
  The location pattern, a greedy run of Hangul syllables followed by one of the three
  end syllables, anchored at the head of the string: the run is taken whole and given
  back syllable by syllable until an end syllable follows at least one syllable, so the
  match is the longest prefix of the run that ends in an end syllable and has two
  syllables or more.
\<close>

definition match_loc :: "ustr \<Rightarrow> ustr option" where
  "match_loc s =
     (let p = rev (dropWhile (\<lambda>c. \<not> loc_end c) (rev (takeWhile is_hangul s)))
      in if 2 \<le> length p then Some p else None)"

text \<open>\<open>re.findall\<close> of the location pattern: leftmost matches, not overlapping.\<close>

fun findall_loc :: "ustr \<Rightarrow> ustr list" where
  "findall_loc [] = []"
| "findall_loc (c # cs) =
     (case match_loc (c # cs) of
        Some p \<Rightarrow> p # findall_loc (drop (length p - 1) cs)
      | None \<Rightarrow> findall_loc cs)"

text \<open>\<open>re.search\<close> of the location pattern: the first match.\<close>

definition extract_location_from_query :: "ustr \<Rightarrow> ustr option" where
  "extract_location_from_query query =
     (case findall_loc query of [] \<Rightarrow> None | p # ps \<Rightarrow> Some p)"














text \<open>An entry of the history as the callers build it.\<close>

record 'r history_entry =
  h_query :: "ustr option"
  h_location :: "ustr option"
  h_results :: "'r list"















section \<open>Intent decomposer: the language-model path of \<open>TaskParser\<close>\<close>

text \<open>String operations of Python used by the parser, over code points.\<close>

definition strip :: "ustr \<Rightarrow> ustr" where
  "strip s = rev (dropWhile is_space (rev (dropWhile is_space s)))"

fun is_prefix_of :: "ustr \<Rightarrow> ustr \<Rightarrow> bool" where
  "is_prefix_of [] ys = True"
| "is_prefix_of (x # xs) [] = False"
| "is_prefix_of (x # xs) (y # ys) = (x = y \<and> is_prefix_of xs ys)"

text \<open>\<open>needle in hay\<close>\<close>

fun contains :: "ustr \<Rightarrow> ustr \<Rightarrow> bool" where
  "contains needle [] = (needle = [])"
| "contains needle (h # hs) = (is_prefix_of needle (h # hs) \<or> contains needle hs)"

text \<open>\<open>s.replace(old, '')\<close> for a non-empty \<open>old\<close>: occurrences are removed from the left.\<close>

fun remove_sub :: "ustr \<Rightarrow> ustr \<Rightarrow> ustr" where
  "remove_sub old [] = []"
| "remove_sub old (c # cs) =
     (if old \<noteq> [] \<and> is_prefix_of old (c # cs) then remove_sub old (drop (length old - 1) cs)
      else c # remove_sub old cs)"

text \<open>\<open>' '.join(words)\<close>\<close>

fun join_space :: "ustr list \<Rightarrow> ustr" where
  "join_space [] = []"
| "join_space [w] = w"
| "join_space (w # ws) = w @ [32] @ join_space ws"

text \<open>
  The five patterns that recognise an utterance giving a location only. Each starts with
  a Hangul run that ends in a given syllable; \<open>after_loc e s\<close> lists what is left of \<open>s\<close>
  after each way of matching that start, in the order the matcher tries them. The rest
  of each pattern has one way to match, checked by the \<open>tail\<close> functions; \<open>$\<close> is the
  end of the (stripped) string.
\<close>

definition after_loc :: "nat \<Rightarrow> ustr \<Rightarrow> ustr list" where
  "after_loc e s =
     map (\<lambda>k. drop (Suc k) s)
       (filter (\<lambda>k. 1 \<le> k \<and> s ! k = e) (rev [0 ..< length (takeWhile is_hangul s)]))"

definition tail_ya :: "ustr \<Rightarrow> bool" where
  "tail_ya r = (r = [] \<or> r = [50556])"

definition tail_station :: "ustr \<Rightarrow> bool" where
  "tail_station r =
     (let r1 = dropWhile is_space r;
          r2 = (if is_prefix_of [44540, 52376] r1 then drop 2 r1 else r1)
      in tail_ya r2)"

definition tail_find :: "ustr \<Rightarrow> bool" where
  "tail_find r =
     (let r1 = dropWhile is_space r
      in is_prefix_of [50640, 49436] r1
         \<and> (let r2 = dropWhile is_space (drop 2 r1)
            in r2 = [52286, 50500] \<or> r2 = [52286, 50500, 51480]))"

definition is_location_only :: "ustr \<Rightarrow> bool" where
  "is_location_only user_query =
     (let s = strip user_query
      in list_ex tail_ya (after_loc 44396 s)
         \<or> list_ex tail_ya (after_loc 46041 s)
         \<or> list_ex tail_station (after_loc 50669 s)
         \<or> list_ex tail_find (after_loc 44396 s)
         \<or> list_ex tail_find (after_loc 46041 s))"

datatype py_error = TypeError

text \<open>
  \<open>history_item.get("query", "")\<close> is \<open>None\<close> for an entry stored without a query, and
  \<open>condition in None\<close> raises.
\<close>

definition search_conditions :: "ustr list" where
  "search_conditions =
     [[50900, 49464], [51204, 49464], [47588, 47588], [50724, 54588, 49828, 53588],
      [50500, 54028, 53944], [48716, 46972], [50896, 47352], [53804, 47352],
      [50416, 47532, 47352]]"

text \<open>The conditions found in one earlier query, added to those found so far.\<close>

definition conditions_of :: "ustr \<Rightarrow> ustr list \<Rightarrow> ustr list" where
  "conditions_of history_query previous =
     (let p1 = foldl (\<lambda>p condition.
                  if contains condition history_query \<and> condition \<notin> set p
                  then p @ [condition] else p) previous search_conditions
      in if (contains [51665] history_query \<or> contains [47588, 47932] history_query)
            \<and> [47588, 47932] \<notin> set p1
         then p1 @ [[47588, 47932]] else p1)"

text \<open>
  \<open>for history_item in reversed(search_history[-5:])\<close>, left at the first entry that
  yields a condition.
\<close>

fun previous_conditions :: "'r history_entry list \<Rightarrow> py_error + ustr list" where
  "previous_conditions [] = Inr []"
| "previous_conditions (item # older) =
     (case h_query item of
        None \<Rightarrow> Inl TypeError
      | Some hq \<Rightarrow>
          (let p = conditions_of hq []
           in if p \<noteq> [] then Inr p else previous_conditions older))"

definition latest_conditions :: "ustr \<Rightarrow> ustr list" where
  "latest_conditions latest_query =
     (let p = (if contains [50900, 49464] latest_query then [[50900, 49464]]
               else if contains [51204, 49464] latest_query then [[51204, 49464]]
               else [])
      in if contains [47588, 47932] latest_query \<or> contains [51665] latest_query
         then p @ [[47588, 47932]] else p)"

text \<open>
  The query after the enrichment from the conversation (\<open>enhanced_query\<close>): a
  location-only utterance takes the conditions of the recent searches; a search without
  a location takes those of the latest search.
\<close>

definition enhanced_query ::
  "string \<Rightarrow> ustr \<Rightarrow> 'r history_entry list \<Rightarrow> py_error + ustr" where
  "enhanced_query primary user_query search_history =
     (if is_location_only user_query \<and> search_history \<noteq> [] then
        (case previous_conditions (rev (drop (length search_history - 5) search_history)) of
           Inl e \<Rightarrow> Inl e
         | Inr p \<Rightarrow>
             if p \<noteq> [] then
               Inr (strip (remove_sub [50640, 49436]
                            (remove_sub [50640, 49436, 32, 52286, 50500, 51480]
                              (remove_sub [50556] user_query)))
                    @ [32] @ join_space p)
             else Inr user_query)
      else if primary = ''SEARCH'' \<and> extract_location_from_query user_query = None
              \<and> search_history \<noteq> [] then
        (case h_query (last search_history) of
           None \<Rightarrow> Inl TypeError
         | Some latest_query \<Rightarrow>
             if latest_conditions latest_query \<noteq> []
             then Inr (user_query @ [32] @ join_space (latest_conditions latest_query))
             else Inr user_query)
      else Inr user_query)"

text \<open>The classifier's answer, as far as the parser reads it.\<close>

record intent_data =
  primary_intent :: string
  secondary_intents :: "string list"
  is_complex_request :: bool
  requires_existing_data :: bool

definition location_request :: "ustr \<Rightarrow> 'r AgentTask" where
  "location_request user_query =
     \<lparr>task_id = ''location_request'', task_type = CHAT, data_query = user_query,
      data_response = Some
        [50612, 45712, 32, 51648, 50669, 51032, 32, 47588, 47932, 51012, 32, 52286, 51004,
         49884, 45208, 50836, 63, 32, 50696, 47484, 32, 46308, 50612, 32, 39, 49436, 52488,
         44396, 39, 44, 32, 39, 48169, 48176, 46041, 39, 44, 32, 39, 44053, 45224, 50669, 32,
         44540, 52376, 39, 32, 46321, 51004, 47196, 32, 47568, 50432, 54644, 32, 51452, 49464,
         50836, 46],
      priority = HIGH, dependencies = [], status = Pending, result = None, error = None\<rparr>"

definition plain_task :: "string \<Rightarrow> TaskType \<Rightarrow> ustr \<Rightarrow> Priority \<Rightarrow> string list \<Rightarrow> 'r AgentTask" where
  "plain_task tid ty q prio deps =
     \<lparr>task_id = tid, task_type = ty, data_query = q, data_response = None,
      priority = prio, dependencies = deps, status = Pending, result = None, error = None\<rparr>"

text \<open>
  \<open>_create_simple_task_from_llm\<close>. The code for a primary intent other than SEARCH
  (comparison, recommendation and the other capabilities working on existing results)
  is not part of the claims and is the parameter \<open>other\<close>.
\<close>

definition create_simple_task_from_llm ::
  "(ustr \<Rightarrow> intent_data \<Rightarrow> 'r history_entry list \<Rightarrow> py_error + 'r AgentTask list)
     \<Rightarrow> ustr \<Rightarrow> intent_data \<Rightarrow> 'r history_entry list \<Rightarrow> py_error + 'r AgentTask list" where
  "create_simple_task_from_llm other user_query intent search_history =
     (case enhanced_query (primary_intent intent) user_query search_history of
        Inl e \<Rightarrow> Inl e
      | Inr enhanced \<Rightarrow>
          if primary_intent intent = ''SEARCH'' then
            (if extract_location_from_query enhanced = None
             then Inr [location_request user_query]
             else if requires_existing_data intent
                     \<and> (search_history = [] \<or> h_results (last search_history) = [])
             then Inr [plain_task ''chat_no_results'' CHAT user_query LOW []]
             else Inr [plain_task ''llm_search_001'' SEARCH enhanced HIGH []])
          else other user_query intent search_history)"

text \<open>An entry of the task list the language model returns for a complex request.\<close>

record llm_task =
  lt_task_type :: string
  lt_priority :: string
  lt_dependencies :: "string list"

definition task_type_map :: "string \<Rightarrow> TaskType" where
  "task_type_map s =
     (if s = ''SEARCH'' then SEARCH else if s = ''SIMILARITY_SEARCH'' then SIMILARITY_SEARCH
      else if s = ''ANALYSIS'' then ANALYSIS else if s = ''RECOMMENDATION'' then RECOMMENDATION
      else if s = ''COMPARISON'' then COMPARISON else if s = ''WISHLIST'' then WISHLIST
      else CHAT)"

definition priority_map :: "string \<Rightarrow> Priority" where
  "priority_map s = (if s = ''HIGH'' then HIGH else if s = ''LOW'' then LOW else MEDIUM)"

text \<open>\<open>f"llm_complex_{i+1:03d}"\<close>\<close>

fun decimal :: "nat \<Rightarrow> string" where
  "decimal n = (if n < 10 then [''0123456789'' ! n]
                else decimal (n div 10) @ [''0123456789'' ! (n mod 10)])"

definition complex_id :: "nat \<Rightarrow> string" where
  "complex_id i =
     ''llm_complex_'' @ replicate (3 - length (decimal (i + 1))) CHR ''0'' @ decimal (i + 1)"

text \<open>\<open>type_to_id\<close>: the identifier of the last task of each type.\<close>

definition type_to_id :: "llm_task list \<Rightarrow> string \<rightharpoonup> string" where
  "type_to_id ts = map_of (rev (map (\<lambda>(i, t). (lt_task_type t, complex_id i)) (enumerate 0 ts)))"

definition create_complex_tasks :: "ustr \<Rightarrow> llm_task list \<Rightarrow> 'r AgentTask list" where
  "create_complex_tasks user_query ts =
     map (\<lambda>(i, t). plain_task (complex_id i) (task_type_map (lt_task_type t)) user_query
                     (priority_map (lt_priority t))
                     (concat (map (\<lambda>dep. case type_to_id ts dep of None \<Rightarrow> [] | Some d \<Rightarrow> [d])
                                (lt_dependencies t))))
         (enumerate 0 ts)"

text \<open>
  \<open>_analyze_intent_with_llm\<close>: \<open>intent\<close> is the classifier's parsed answer and
  \<open>complex_data\<close> the parsed task list of the second call (\<open>None\<close> when a call fails or
  its answer cannot be parsed). The result \<open>None\<close> sends the parser to its keyword
  rules; a complex request whose task list is missing is treated as a simple one.
\<close>

definition analyze_intent_with_llm ::
  "(ustr \<Rightarrow> intent_data \<Rightarrow> 'r history_entry list \<Rightarrow> py_error + 'r AgentTask list)
     \<Rightarrow> intent_data option \<Rightarrow> llm_task list option \<Rightarrow> 'r history_entry list \<Rightarrow> ustr
     \<Rightarrow> 'r AgentTask list option" where
  "analyze_intent_with_llm other intent complex_data search_history user_query =
     (case intent of
        None \<Rightarrow> None
      | Some i \<Rightarrow>
          (case (if secondary_intents i \<noteq> [] \<or> is_complex_request i then complex_data else None) of
             Some ts \<Rightarrow> Some (create_complex_tasks user_query ts)
           | None \<Rightarrow>
               (case create_simple_task_from_llm other user_query i search_history of
                  Inl e \<Rightarrow> None
                | Inr tasks \<Rightarrow> Some tasks)))"

lemma task_records_truthy: "task_records t \<noteq> [] \<Longrightarrow> result_truthy (result t)"
  by (auto simp: task_records_def result_truthy_def get_results_def
      split: option.splits TaskType.splits if_splits)

lemma combine_step_set:
  "search_results_set st \<Longrightarrow>
     search_results_set (combine_step st t) \<and>
     final_search_results (combine_step st t) = final_search_results st"
  by (auto simp: combine_step_def combine_completed_def Let_def
      split: option.splits TaskType.splits)

lemma combine_step_producer:
  "\<not> search_results_set st \<Longrightarrow> produces_records t \<Longrightarrow>
     search_results_set (combine_step st t) \<and>
     final_search_results (combine_step st t) = task_records t"
  using task_records_truthy[of t]
  by (auto simp: combine_step_def combine_completed_def Let_def produces_records_def
      task_records_def split: option.splits TaskType.splits if_splits)

lemma combine_step_no_producer:
  "\<not> search_results_set st \<Longrightarrow> \<not> produces_records t \<Longrightarrow>
     \<not> search_results_set (combine_step st t) \<and>
     final_search_results (combine_step st t) = final_search_results st"
  by (auto simp: combine_step_def combine_completed_def Let_def produces_records_def
      task_records_def split: option.splits TaskType.splits if_splits)

lemma foldl_combine_set:
  "search_results_set st \<Longrightarrow>
     final_search_results (foldl combine_step st ts) = final_search_results st"
  by (induction ts arbitrary: st) (simp_all add: combine_step_set)

lemma foldl_combine_find:
  "\<not> search_results_set st \<Longrightarrow>
     final_search_results (foldl combine_step st ts) =
       (case find produces_records ts of None \<Rightarrow> final_search_results st
        | Some t \<Rightarrow> task_records t)"
proof (induction ts arbitrary: st)
  case Nil
  then show ?case by simp
next
  case (Cons t ts)
  show ?case
  proof (cases "produces_records t")
    case True
    with Cons.prems show ?thesis
      by (simp add: foldl_combine_set combine_step_producer)
  next
    case False
    with Cons.prems Cons.IH[of "combine_step st t"] show ?thesis
      by (simp add: combine_step_no_producer split: option.splits)
  qed
qed

lemma insort_key_after:
  "\<forall>a\<in>set xs. f a < f x \<Longrightarrow> insort_key f x (xs @ ys) = xs @ insort_key f x ys"
  by (induction xs) auto

lemma insort_key_front:
  "\<forall>a\<in>set ys. f x \<le> f a \<Longrightarrow> insort_key f x ys = x # ys"
  by (cases ys) auto

lemma insort_key_groups:
  fixes f :: "'a \<Rightarrow> nat"
  assumes "sorted ks" "distinct ks" "f x \<in> set ks"
  shows "insort_key f x (concat (map (\<lambda>k. filter (\<lambda>y. f y = k) xs) ks))
       = concat (map (\<lambda>k. filter (\<lambda>y. f y = k) (x # xs)) ks)"
  using assms
proof (induction ks)
  case Nil
  then show ?case by simp
next
  case (Cons k ks)
  show ?case
  proof (cases "f x = k")
    case True
    with Cons.prems have "\<forall>k'\<in>set ks. f x < k'"
      by (metis distinct.simps(2) le_neq_implies_less sorted_simps(2))
    then have ge: "\<forall>a\<in>set (concat (map (\<lambda>k. filter (\<lambda>y. f y = k) xs) (k # ks))). f x \<le> f a"
      using True by auto
    have same: "map (\<lambda>k. filter (\<lambda>y. f y = k) (x # xs)) ks = map (\<lambda>k. filter (\<lambda>y. f y = k) xs) ks"
      using True Cons.prems by auto
    have "concat (map (\<lambda>k. filter (\<lambda>y. f y = k) (x # xs)) (k # ks))
        = (x # filter (\<lambda>y. f y = k) xs) @ concat (map (\<lambda>k. filter (\<lambda>y. f y = k) (x # xs)) ks)"
      using True by simp
    also have "\<dots> = x # concat (map (\<lambda>k. filter (\<lambda>y. f y = k) xs) (k # ks))"
      by (simp only: same) simp
    finally show ?thesis using insort_key_front[OF ge] by simp
  next
    case False
    with Cons.prems have lt: "k < f x" and mem: "f x \<in> set ks" by auto
    have "insort_key f x (filter (\<lambda>y. f y = k) xs @ concat (map (\<lambda>k. filter (\<lambda>y. f y = k) xs) ks))
        = filter (\<lambda>y. f y = k) xs @ insort_key f x (concat (map (\<lambda>k. filter (\<lambda>y. f y = k) xs) ks))"
      using lt by (intro insort_key_after) auto
    with Cons.IH mem Cons.prems False show ?thesis by auto
  qed
qed

lemma sort_key_groups:
  fixes f :: "'a \<Rightarrow> nat"
  assumes "sorted ks" "distinct ks" "f ` set xs \<subseteq> set ks"
  shows "sort_key f xs = concat (map (\<lambda>k. filter (\<lambda>y. f y = k) xs) ks)"
  using assms(3)
proof (induction xs)
  case Nil
  then show ?case by simp
next
  case (Cons x xs)
  then show ?case using insort_key_groups[OF assms(1,2), of f x xs] by simp
qed

lemma task_order_inj: "task_order a = task_order b \<longleftrightarrow> a = b"
  by (cases a; cases b) (simp_all add: task_order_def)

lemma sort_key_task_order:
  "sort_key (\<lambda>t. task_order (task_type t)) ts = in_precedence_order ts"
proof -
  have "task_order (task_type t) \<in> set (map task_order precedence)" for t :: "'a AgentTask"
    by (cases "task_type t") (simp_all add: precedence_def task_order_def)
  then have "sort_key (\<lambda>t. task_order (task_type t)) ts
      = concat (map (\<lambda>k. filter (\<lambda>t. task_order (task_type t) = k) ts) (map task_order precedence))"
    by (intro sort_key_groups) (auto simp: precedence_def task_order_def)
  also have "\<dots> = in_precedence_order ts"
    by (simp add: in_precedence_order_def task_order_inj comp_def)
  finally show ?thesis .
qed

text \<open>
  First producer wins: the payload is the record list of the first task, in the fixed
  capability order Search, Similarity-Search, Recommendation, Comparison, Analysis,
  Wishlist, Chat (within one capability, in completion order), that is completed and
  carries a non-empty list under the key the aggregator reads; later lists neither
  replace it nor are merged into it.
\<close>

lemma combine_payload_first_producer:
  "final_search_results (combine_results ts) =
     (case find produces_records (in_precedence_order ts) of
        None \<Rightarrow> [] | Some t \<Rightarrow> task_records t)"
  unfolding combine_results_def sort_key_task_order
  by (subst foldl_combine_find) (simp_all add: combine_init_def split: option.splits)

lemmas combine_eval = combine_results_def combine_init_def combine_step_def
  combine_completed_def ex_task_def empty_result_def task_order_def result_truthy_def
  get_results_def get_text_def Let_def

text \<open>
  Claim C7 at its failing input. The comparison provider returns the listings it compared
  under \<open>compared_properties\<close>, the aggregator looks for them under
  \<open>comparison_data\<close>. A completed Comparison that carries the records \<open>[1, 2]\<close> therefore
  never supplies the payload: alone it yields an empty payload and the kind \<open>chat\<close>, and
  with a completed Analysis carrying \<open>[3]\<close>, which comes after it in the precedence
  order, the payload is \<open>[3]\<close>. With the same records under the key the aggregator
  reads, the payload is \<open>[1, 2]\<close>, as the claim says; so is the Search
  \<open>[1, 2]\<close> / Recommendation \<open>[1]\<close> example.
\<close>

theorem comparison_records_never_payload:
  "in_precedence_order [ex_task ANALYSIS analysis_result, ex_task COMPARISON comparison_result]
     = [ex_task COMPARISON comparison_result, ex_task ANALYSIS analysis_result]
   \<and> compared_properties comparison_result = Some [1, 2]
   \<and> final_search_results (combine_results [ex_task COMPARISON comparison_result]) = []
   \<and> result_type (combine_results [ex_task COMPARISON comparison_result]) = Chat_kind
   \<and> final_search_results (combine_results
        [ex_task ANALYSIS analysis_result, ex_task COMPARISON comparison_result]) = [3]
   \<and> final_search_results (combine_results
        [ex_task ANALYSIS analysis_result, ex_task COMPARISON expected_comparison_result])
       = [1, 2]
   \<and> final_search_results (combine_results
        [ex_task RECOMMENDATION (empty_result\<lparr>recommendation_data := Some [1::nat]\<rparr>),
         ex_task SEARCH (empty_result\<lparr>search_results := Some [1, 2]\<rparr>)]) = [1, 2]"
  by (simp add: combine_eval in_precedence_order_def precedence_def comparison_result_def
      analysis_result_def expected_comparison_result_def)


lemma combine_step_set_mono:
  "search_results_set st \<Longrightarrow> search_results_set (combine_step st t)"
  by (simp add: combine_step_set)






section \<open>Scheduler: invariants of the run loop\<close>

lemma pending_record_subset:
  "set (pending_tasks (record_result st r)) \<subseteq> set (pending_tasks st)"
  by (auto simp: record_result_def)

lemma pending_foldl_record_subset:
  "set (pending_tasks (foldl record_result st rs)) \<subseteq> set (pending_tasks st)"
proof (induction rs arbitrary: st)
  case Nil
  then show ?case by simp
next
  case (Cons r rs)
  from Cons.IH[of "record_result st r"] pending_record_subset[of st r]
  show ?case by auto
qed

lemma pending_sequential_subset:
  "set (pending_tasks (foldl (sequential_step prov) st ts)) \<subseteq> set (pending_tasks st)"
proof (induction ts arbitrary: st)
  case Nil
  then show ?case by simp
next
  case (Cons t ts)
  have "set (pending_tasks (sequential_step prov st t)) \<subseteq> set (pending_tasks st)"
    using pending_record_subset by (auto simp: sequential_step_def)
  with Cons.IH[of "sequential_step prov st t"] show ?case by auto
qed

lemma pending_run_iteration_subset:
  "set (pending_tasks (run_iteration prov st)) \<subseteq> set (pending_tasks st)"
  unfolding run_iteration_def Let_def
  using pending_sequential_subset pending_foldl_record_subset by blast

lemma pending_run_loop_subset:
  "set (pending_tasks (run_loop prov st)) \<subseteq> set (pending_tasks st)"
proof (induction prov st rule: run_loop.induct)
  case (1 prov st)
  show ?case
  proof (cases "pending_tasks st = [] \<or> ready_tasks st = []")
    case True
    then show ?thesis by (subst run_loop.simps) auto
  next
    case False
    then have "run_loop prov st = run_loop prov (run_iteration prov st)"
      by (subst run_loop.simps) auto
    with False 1 pending_run_iteration_subset[of prov st] show ?thesis by auto
  qed
qed

lemma check_dependencies_no_deps: "dependencies t = [] \<Longrightarrow> check_dependencies c t"
  by (simp add: check_dependencies_def)

lemma foldl_record_inv:
  assumes step: "\<And>s t. I s \<Longrightarrow> t \<in> T \<Longrightarrow> check_dependencies (completed_tasks s) t
            \<Longrightarrow> I (record_result s (execute_task prov t))"
    and "I st" and "set ts \<subseteq> T" and "\<forall>t\<in>set ts. dependencies t = []"
  shows "I (foldl record_result st (map (execute_task prov) ts))"
  using assms(2-4)
proof (induction ts arbitrary: st)
  case Nil
  then show ?case by simp
next
  case (Cons t ts)
  have "I (record_result st (execute_task prov t))"
    using Cons.prems by (intro step) (auto simp: check_dependencies_no_deps)
  with Cons show ?case by simp
qed

lemma foldl_sequential_inv:
  assumes step: "\<And>s t. I s \<Longrightarrow> t \<in> T \<Longrightarrow> check_dependencies (completed_tasks s) t
            \<Longrightarrow> I (record_result s (execute_task prov t))"
    and "I st" and "set ts \<subseteq> T"
  shows "I (foldl (sequential_step prov) st ts)"
  using assms(2-3)
proof (induction ts arbitrary: st)
  case Nil
  then show ?case by simp
next
  case (Cons t ts)
  have "I (sequential_step prov st t)"
    using Cons.prems step[of st t] by (auto simp: sequential_step_def)
  with Cons show ?case by simp
qed

lemma run_iteration_inv:
  assumes step: "\<And>s t. I s \<Longrightarrow> t \<in> T \<Longrightarrow> check_dependencies (completed_tasks s) t
            \<Longrightarrow> I (record_result s (execute_task prov t))"
    and "I st" and "set (pending_tasks st) \<subseteq> T"
  shows "I (run_iteration prov st)"
proof -
  define ready where "ready = sort_key (\<lambda>t. priority_value (priority t)) (ready_tasks st)"
  have sub: "set ready \<subseteq> T"
    using assms(3) by (auto simp: ready_def ready_tasks_def)
  have "I (foldl record_result st (map (execute_task prov) (filter (\<lambda>t. dependencies t = []) ready)))"
    using sub assms(2) by (intro foldl_record_inv[where T = T and I = I] step) auto
  then have "I (foldl (sequential_step prov)
       (foldl record_result st (map (execute_task prov) (filter (\<lambda>t. dependencies t = []) ready)))
       (filter (\<lambda>t. dependencies t \<noteq> []) ready))"
    using sub by (intro foldl_sequential_inv[where T = T and I = I] step) auto
  then show ?thesis
    by (simp add: run_iteration_def Let_def ready_def)
qed

lemma run_loop_inv:
  assumes "\<And>s t. I s \<Longrightarrow> t \<in> T \<Longrightarrow> check_dependencies (completed_tasks s) t
            \<Longrightarrow> I (record_result s (execute_task prov t))"
    and "I st" and "set (pending_tasks st) \<subseteq> T"
  shows "I (run_loop prov st)"
  using assms
proof (induction prov st rule: run_loop.induct)
  case (1 prov st)
  note step = "1.prems"(1)
  show ?case
  proof (cases "pending_tasks st = [] \<or> ready_tasks st = []")
    case True
    then have "run_loop prov st = st" by (subst run_loop.simps) auto
    with 1 show ?thesis by simp
  next
    case False
    then have eq: "run_loop prov st = run_loop prov (run_iteration prov st)"
      by (subst run_loop.simps) auto
    have a: "I (run_iteration prov st)"
      using "1.prems"(2,3) step by (rule run_iteration_inv[where T = T and I = I, rotated])
    have b: "set (pending_tasks (run_iteration prov st)) \<subseteq> T"
      using pending_run_iteration_subset[of prov st] "1.prems" by blast
    have "I (run_loop prov (run_iteration prov st))"
      using False a b step by (intro "1.IH") auto
    with eq show ?thesis by simp
  qed
qed

lemma run_loop_exit:
  "pending_tasks (run_loop prov st) = [] \<or> ready_tasks (run_loop prov st) = []"
proof (induction prov st rule: run_loop.induct)
  case (1 prov st)
  show ?case
  proof (cases "pending_tasks st = [] \<or> ready_tasks st = []")
    case True
    then have "run_loop prov st = st" by (subst run_loop.simps) auto
    with True show ?thesis by auto
  next
    case False
    then have "run_loop prov st = run_loop prov (run_iteration prov st)"
      by (subst run_loop.simps) auto
    with False 1 show ?thesis by auto
  qed
qed

lemma status_execute_task:
  "status (execute_task prov t) = Completed \<or> status (execute_task prov t) = Failed"
  by (simp add: execute_task_def split: outcome.splits)

lemma status_execute_task_Done:
  "status (execute_task prov t) = Completed \<longleftrightarrow> (\<exists>r. prov (t\<lparr>status := Running\<rparr>) = Done r)"
  by (simp add: execute_task_def split: outcome.splits)

lemma dict_put_ids: "task_id ` set (dict_put t d) = insert (task_id t) (task_id ` set d)"
  by (induction d) auto

lemma dict_put_distinct: "distinct (map task_id d) \<Longrightarrow> distinct (map task_id (dict_put t d))"
proof (induction d)
  case Nil
  then show ?case by simp
next
  case (Cons u us)
  then show ?case using dict_put_ids[of t us] by (auto simp: image_iff)
qed

lemma dict_put_subset: "set (dict_put t d) \<subseteq> insert t (set d)"
  by (induction d) auto

lemma foldl_dict_put:
  "distinct (map task_id d) \<Longrightarrow>
     distinct (map task_id (foldl (\<lambda>d t. dict_put t d) d ts))
     \<and> task_id ` set (foldl (\<lambda>d t. dict_put t d) d ts) = task_id ` set d \<union> task_id ` set ts
     \<and> set (foldl (\<lambda>d t. dict_put t d) d ts) \<subseteq> set d \<union> set ts"
proof (induction ts arbitrary: d)
  case Nil
  then show ?case by simp
next
  case (Cons t ts)
  from Cons.IH[OF dict_put_distinct[OF Cons.prems, of t]] dict_put_ids[of t d]
    dict_put_subset[of t d]
  show ?case by auto
qed

lemma mk_pending_distinct: "distinct (map task_id (mk_pending tasks))"
  using foldl_dict_put[of "[]" tasks] by (simp add: mk_pending_def)

lemma mk_pending_ids: "task_id ` set (mk_pending tasks) = task_id ` set tasks"
  using foldl_dict_put[of "[]" tasks] by (simp add: mk_pending_def)

lemma mk_pending_subset: "set (mk_pending tasks) \<subseteq> set tasks"
  using foldl_dict_put[of "[]" tasks] by (simp add: mk_pending_def)

lemma mk_pending_distinct_id: "distinct (map task_id tasks) \<Longrightarrow> mk_pending tasks = tasks"
proof -
  have "distinct (map task_id (d @ ts)) \<Longrightarrow> foldl (\<lambda>d t. dict_put t d) d ts = d @ ts" for d ts :: "'a AgentTask list"
  proof (induction ts arbitrary: d)
    case Nil
    then show ?case by simp
  next
    case (Cons t ts)
    have "dict_put t d = d @ [t]" using Cons.prems
      by (induction d) auto
    with Cons.IH[of "d @ [t]"] Cons.prems show ?case by simp
  qed
  from this[of "[]" tasks] show "distinct (map task_id tasks) \<Longrightarrow> mk_pending tasks = tasks"
    by (simp add: mk_pending_def)
qed

text \<open>Invariant: the results hold terminal tasks only.\<close>

lemma results_terminal:
  fixes prov :: "'r AgentTask \<Rightarrow> 'r outcome"
  shows "\<forall>t\<in>set (completed_results (run_tasks prov completed tasks)).
      status t = Completed \<or> status t = Failed"
  unfolding run_tasks_def
proof (rule run_loop_inv[where T = UNIV and
      I = "\<lambda>s. \<forall>t\<in>set (completed_results s). status t = Completed \<or> status t = Failed"])
  fix s :: "'r sched_state" and t :: "'r AgentTask"
  assume "\<forall>t\<in>set (completed_results s). status t = Completed \<or> status t = Failed"
  then show "\<forall>u\<in>set (completed_results (record_result s (execute_task prov t))).
      status u = Completed \<or> status u = Failed"
    using status_execute_task[of prov t] by (auto simp: record_result_def)
qed simp_all

text \<open>Invariant: no identifier is both pending and among the results.\<close>

lemma results_pending_disjoint:
  fixes prov :: "'r AgentTask \<Rightarrow> 'r outcome"
  shows "task_id ` set (completed_results (run_tasks prov completed tasks))
     \<inter> task_id ` set (pending_tasks (run_tasks prov completed tasks)) = {}"
  unfolding run_tasks_def
proof (rule run_loop_inv[where T = UNIV and
      I = "\<lambda>s. task_id ` set (completed_results s) \<inter> task_id ` set (pending_tasks s) = {}"])
  fix s :: "'r sched_state" and t :: "'r AgentTask"
  assume "task_id ` set (completed_results s) \<inter> task_id ` set (pending_tasks s) = {}"
  then show "task_id ` set (completed_results (record_result s (execute_task prov t)))
      \<inter> task_id ` set (pending_tasks (record_result s (execute_task prov t))) = {}"
    by (auto simp: record_result_def)
qed simp_all

text \<open>Invariant: every task of the run is pending or among the results.\<close>

lemma results_or_pending:
  fixes prov :: "'r AgentTask \<Rightarrow> 'r outcome"
  shows "task_id ` set (mk_pending tasks) \<subseteq>
     task_id ` set (completed_results (run_tasks prov completed tasks))
     \<union> task_id ` set (pending_tasks (run_tasks prov completed tasks))"
  unfolding run_tasks_def
proof (rule run_loop_inv[where T = UNIV and
      I = "\<lambda>s. task_id ` set (mk_pending tasks) \<subseteq>
             task_id ` set (completed_results s) \<union> task_id ` set (pending_tasks s)"])
  fix s :: "'r sched_state" and t :: "'r AgentTask"
  assume "task_id ` set (mk_pending tasks) \<subseteq>
             task_id ` set (completed_results s) \<union> task_id ` set (pending_tasks s)"
  then show "task_id ` set (mk_pending tasks) \<subseteq>
      task_id ` set (completed_results (record_result s (execute_task prov t)))
      \<union> task_id ` set (pending_tasks (record_result s (execute_task prov t)))"
    by (auto simp: record_result_def)
qed simp_all

lemma results_ids_subset:
  fixes prov :: "'r AgentTask \<Rightarrow> 'r outcome"
  shows "task_id ` set (completed_results (run_tasks prov completed tasks)) \<subseteq> task_id ` set (mk_pending tasks)"
  unfolding run_tasks_def
proof (rule run_loop_inv[where T = "set (mk_pending tasks)" and
      I = "\<lambda>s. task_id ` set (completed_results s) \<subseteq> task_id ` set (mk_pending tasks)"])
  fix s :: "'r sched_state" and t :: "'r AgentTask"
  assume "task_id ` set (completed_results s) \<subseteq> task_id ` set (mk_pending tasks)"
    and "t \<in> set (mk_pending tasks)"
  then show "task_id ` set (completed_results (record_result s (execute_task prov t)))
      \<subseteq> task_id ` set (mk_pending tasks)"
    by (auto simp: record_result_def)
qed simp_all

lemma finite_dep_rel: "finite (dep_rel tasks)"
proof -
  have "dep_rel tasks \<subseteq> (\<Union>t\<in>set tasks. (\<lambda>d. (d, task_id t)) ` set (dependencies t))"
    by (auto simp: dep_rel_def)
  moreover have "finite (\<Union>t\<in>set tasks. (\<lambda>d. (d, task_id t)) ` set (dependencies t))"
    by simp
  ultimately show ?thesis by (rule finite_subset)
qed

lemma pending_run_tasks_subset:
  "set (pending_tasks (run_tasks prov completed tasks)) \<subseteq> set (mk_pending tasks)"
  using pending_run_loop_subset[of prov "\<lparr>pending_tasks = mk_pending tasks,
      completed_tasks = completed, completed_results = []\<rparr>"]
  by (simp add: run_tasks_def)

lemma completed_invariant:
  fixes prov :: "'r AgentTask \<Rightarrow> 'r outcome"
  assumes ok: "all_succeed prov tasks"
  shows "(\<forall>t\<in>set (mk_pending tasks).
            task_id t \<notin> task_id ` set (pending_tasks (run_tasks prov completed tasks)) \<longrightarrow>
            (\<exists>c. completed_tasks (run_tasks prov completed tasks) (task_id t) = Some c
                 \<and> status c = Completed))
         \<and> (\<forall>t\<in>set (completed_results (run_tasks prov completed tasks)). status t = Completed)"
  unfolding run_tasks_def
proof (rule run_loop_inv[where T = "set (mk_pending tasks)" and
      I = "\<lambda>s. (\<forall>t\<in>set (mk_pending tasks).
            task_id t \<notin> task_id ` set (pending_tasks s) \<longrightarrow>
            (\<exists>c. completed_tasks s (task_id t) = Some c \<and> status c = Completed))
         \<and> (\<forall>t\<in>set (completed_results s). status t = Completed)"])
  fix s :: "'r sched_state" and t :: "'r AgentTask"
  assume I: "(\<forall>t\<in>set (mk_pending tasks).
            task_id t \<notin> task_id ` set (pending_tasks s) \<longrightarrow>
            (\<exists>c. completed_tasks s (task_id t) = Some c \<and> status c = Completed))
         \<and> (\<forall>t\<in>set (completed_results s). status t = Completed)"
    and t: "t \<in> set (mk_pending tasks)"
  from t ok mk_pending_subset[of tasks] have comp: "status (execute_task prov t) = Completed"
    by (auto simp: status_execute_task_Done all_succeed_def)
  have "\<exists>c. completed_tasks (record_result s (execute_task prov t)) (task_id u) = Some c
            \<and> status c = Completed"
    if u: "u \<in> set (mk_pending tasks)"
      and nu: "task_id u \<notin> task_id ` set (pending_tasks (record_result s (execute_task prov t)))"
    for u
  proof (cases "task_id u = task_id t")
    case True
    with comp show ?thesis by (simp add: record_result_def)
  next
    case False
    with nu have "task_id u \<notin> task_id ` set (pending_tasks s)"
      by (auto simp: record_result_def)
    with I u False show ?thesis by (simp add: record_result_def)
  qed
  moreover have "\<forall>u\<in>set (completed_results (record_result s (execute_task prov t))).
      status u = Completed"
    using I comp by (auto simp: record_result_def)
  ultimately show "(\<forall>u\<in>set (mk_pending tasks).
            task_id u \<notin> task_id ` set (pending_tasks (record_result s (execute_task prov t))) \<longrightarrow>
            (\<exists>c. completed_tasks (record_result s (execute_task prov t)) (task_id u) = Some c
                 \<and> status c = Completed))
         \<and> (\<forall>u\<in>set (completed_results (record_result s (execute_task prov t))).
               status u = Completed)"
    by blast
qed simp_all

lemma acyclic_run_completes:
  fixes prov :: "'r AgentTask \<Rightarrow> 'r outcome"
  assumes acyc: "acyclic (dep_rel tasks)" and res: "deps_resolved tasks"
    and ok: "all_succeed prov tasks"
  shows "pending_tasks (run_tasks prov completed tasks) = []"
proof (rule ccontr)
  let ?f = "run_tasks prov completed tasks"
  assume ne: "pending_tasks ?f \<noteq> []"
  have wf: "wf (dep_rel tasks)"
    using finite_dep_rel acyc by (rule finite_acyclic_wf)
  from ne obtain a where "a \<in> task_id ` set (pending_tasks ?f)"
    by (cases "pending_tasks ?f") auto
  with wf obtain z where z: "z \<in> task_id ` set (pending_tasks ?f)"
    and zmin: "\<And>y. (y, z) \<in> dep_rel tasks \<Longrightarrow> y \<notin> task_id ` set (pending_tasks ?f)"
    unfolding wf_eq_minimal by blast
  from z obtain u where u: "u \<in> set (pending_tasks ?f)" and zu: "z = task_id u" by auto
  have sub: "set (pending_tasks ?f) \<subseteq> set (mk_pending tasks)"
    by (rule pending_run_tasks_subset)
  with u mk_pending_subset have u_tasks: "u \<in> set tasks" by blast
  have "check_dependencies (completed_tasks ?f) u"
    unfolding check_dependencies_def list_all_iff
  proof
    fix d assume d: "d \<in> set (dependencies u)"
    with u_tasks have "(d, z) \<in> dep_rel tasks" by (auto simp: dep_rel_def zu)
    then have np: "d \<notin> task_id ` set (pending_tasks ?f)" by (rule zmin)
    from d u_tasks res have "d \<in> task_id ` set tasks" by (auto simp: deps_resolved_def)
    then obtain t where t: "t \<in> set (mk_pending tasks)" and dt: "d = task_id t"
      using mk_pending_ids[of tasks] by (metis imageE)
    from completed_invariant[OF ok, of completed] t np dt
    obtain c where "completed_tasks ?f d = Some c" "status c = Completed" by blast
    then show "case completed_tasks ?f d of None \<Rightarrow> False | Some c \<Rightarrow> status c = Completed"
      by simp
  qed
  with u have "ready_tasks ?f \<noteq> []"
    by (auto simp: ready_tasks_def filter_empty_conv)
  moreover have "pending_tasks ?f = [] \<or> ready_tasks ?f = []"
    unfolding run_tasks_def by (rule run_loop_exit)
  ultimately show False using ne by simp
qed

section \<open>Scheduler: the loop with escaping exceptions\<close>

lemma sequential_guarded_no_escape:
  "(\<And>t. esc t = None) \<Longrightarrow>
     sequential_guarded prov esc st ts = Inr (foldl (sequential_step prov) st ts)"
  by (induction ts arbitrary: st) (simp_all add: try_execute_task_def sequential_step_def)

lemma foldl_parallel_no_escape:
  "(\<And>t. esc t = None) \<Longrightarrow>
     foldl (parallel_step prov esc) st ts = foldl record_result st (map (execute_task prov) ts)"
  by (induction ts arbitrary: st) (simp_all add: parallel_step_def try_execute_task_def)

lemma run_iteration_guarded_no_escape:
  "(\<And>t. esc t = None) \<Longrightarrow> run_iteration_guarded prov esc st = Inr (run_iteration prov st)"
  by (simp add: run_iteration_guarded_def run_iteration_def Let_def
      foldl_parallel_no_escape sequential_guarded_no_escape)

text \<open>
  When every call of \<open>execute_task\<close> returns, the guard of the parallel batch is always
  true, the loop ends, and it ends in the state \<open>run_loop\<close> computes.
\<close>

lemma run_loop_guarded_no_escape:
  assumes "\<And>n t. escapes n t = None"
  shows "run_loop_guarded prov escapes n st = Some (Ended (run_loop prov st))"
proof (induction prov st arbitrary: n rule: run_loop.induct)
  case (1 prov st)
  show ?case
  proof (cases "pending_tasks st = [] \<or> ready_tasks st = []")
    case True
    then have "run_loop prov st = st" by (subst run_loop.simps) auto
    with True show ?thesis by (subst run_loop_guarded.simps) auto
  next
    case False
    then have eq: "run_loop prov st = run_loop prov (run_iteration prov st)"
      by (subst run_loop.simps) auto
    have "run_loop_guarded prov escapes n st
        = run_loop_guarded prov escapes (Suc n) (run_iteration prov st)"
      using False
      by (subst run_loop_guarded.simps) (simp add: run_iteration_guarded_no_escape assms)
    with False "1.IH"[of "Suc n"] eq show ?thesis by simp
  qed
qed

lemma run_tasks_guarded_no_escape:
  assumes "\<And>n t. escapes n t = None"
  shows "run_tasks_guarded prov escapes completed tasks
           = Some (Ended (run_tasks prov completed tasks))"
  using assms by (simp add: run_tasks_guarded_def run_tasks_def run_loop_guarded_no_escape)

text \<open>The state a run ends in, and invariants of the loop with escaping exceptions.\<close>

lemma pending_ids_record_result:
  "task_id ` set (pending_tasks (record_result s r)) \<subseteq> task_id ` set (pending_tasks s)"
  by (auto simp: record_result_def)

lemma task_id_leave [simp]: "task_id (leave u l) = task_id u"
  by (simp add: leave_def)

lemma map_task_id_record_escape:
  "map task_id (pending_tasks (record_escape s t l)) = map task_id (pending_tasks s)"
  by (simp add: record_escape_def)

lemma pending_ids_record_escape:
  "task_id ` set (pending_tasks (record_escape s t l)) = task_id ` set (pending_tasks s)"
  using map_task_id_record_escape[of s t l] by (metis set_map)

lemma completed_record_escape [simp]:
  "completed_tasks (record_escape s t l) = completed_tasks s"
  "completed_results (record_escape s t l) = completed_results s"
  by (simp_all add: record_escape_def)

lemma foldl_parallel_inv:
  assumes rec: "\<And>s t. I s \<Longrightarrow> task_id t \<in> T \<Longrightarrow> I (record_result s (execute_task prov t))"
    and esc: "\<And>s t l. I s \<Longrightarrow> task_id t \<in> T \<Longrightarrow> I (record_escape s t l)"
    and "I st" and "task_id ` set ts \<subseteq> T"
  shows "I (foldl (parallel_step prov e) st ts)"
  using assms(3,4)
proof (induction ts arbitrary: st)
  case Nil
  then show ?case by simp
next
  case (Cons t ts)
  have "I (parallel_step prov e st t)"
    using Cons.prems rec[of st t] esc[of st t]
    by (auto simp: parallel_step_def try_execute_task_def split: option.splits)
  with Cons show ?case by simp
qed

lemma sequential_guarded_inv:
  assumes rec: "\<And>s t. I s \<Longrightarrow> task_id t \<in> T \<Longrightarrow> I (record_result s (execute_task prov t))"
    and esc: "\<And>s t l. I s \<Longrightarrow> task_id t \<in> T \<Longrightarrow> I (record_escape s t l)"
    and "I st" and "task_id ` set ts \<subseteq> T"
  shows "case sequential_guarded prov e st ts of Inl s' \<Rightarrow> I s' | Inr s' \<Rightarrow> I s'"
  using assms(3,4)
proof (induction ts arbitrary: st)
  case Nil
  then show ?case by simp
next
  case (Cons t ts)
  show ?case
  proof (cases "check_dependencies (completed_tasks st) t")
    case False
    with Cons show ?thesis by simp
  next
    case True
    show ?thesis
    proof (cases "e t")
      case None
      have "I (record_result st (execute_task prov t))"
        using Cons.prems by (intro rec) auto
      with Cons.IH[of "record_result st (execute_task prov t)"] Cons.prems True None
      show ?thesis by (simp add: try_execute_task_def)
    next
      case (Some l)
      have "I (record_escape st t l)" using Cons.prems by (intro esc) auto
      with True Some show ?thesis by (simp add: try_execute_task_def)
    qed
  qed
qed

lemma run_iteration_guarded_inv:
  assumes rec: "\<And>s t. I s \<Longrightarrow> task_id t \<in> T \<Longrightarrow> I (record_result s (execute_task prov t))"
    and esc: "\<And>s t l. I s \<Longrightarrow> task_id t \<in> T \<Longrightarrow> I (record_escape s t l)"
    and "I st" and "task_id ` set (pending_tasks st) \<subseteq> T"
  shows "case run_iteration_guarded prov e st of Inl s' \<Rightarrow> I s' | Inr s' \<Rightarrow> I s'"
proof -
  define ready where "ready = sort_key (\<lambda>t. priority_value (priority t)) (ready_tasks st)"
  have sub: "task_id ` set ready \<subseteq> T"
    using assms(4) by (auto simp: ready_def ready_tasks_def)
  have "I (foldl (parallel_step prov e) st (filter (\<lambda>t. dependencies t = []) ready))"
    using sub assms(3) by (intro foldl_parallel_inv[where T = T and I = I] rec esc) auto
  then have "case sequential_guarded prov e
       (foldl (parallel_step prov e) st (filter (\<lambda>t. dependencies t = []) ready))
       (filter (\<lambda>t. dependencies t \<noteq> []) ready) of Inl s' \<Rightarrow> I s' | Inr s' \<Rightarrow> I s'"
    using sub by (intro sequential_guarded_inv[where T = T and I = I] rec esc) auto
  then show ?thesis
    by (simp add: run_iteration_guarded_def Let_def ready_def)
qed

lemma pending_ids_run_iteration_guarded:
  "case run_iteration_guarded prov e st of
     Inl s' \<Rightarrow> task_id ` set (pending_tasks s') \<subseteq> task_id ` set (pending_tasks st)
   | Inr s' \<Rightarrow> task_id ` set (pending_tasks s') \<subseteq> task_id ` set (pending_tasks st)"
proof (rule run_iteration_guarded_inv[where T = UNIV and
      I = "\<lambda>s. task_id ` set (pending_tasks s) \<subseteq> task_id ` set (pending_tasks st)"])
  fix s :: "'a sched_state" and t :: "'a AgentTask"
  assume "task_id ` set (pending_tasks s) \<subseteq> task_id ` set (pending_tasks st)"
  then show "task_id ` set (pending_tasks (record_result s (execute_task prov t)))
      \<subseteq> task_id ` set (pending_tasks st)"
    using pending_ids_record_result[of s "execute_task prov t"] by blast
next
  fix s :: "'a sched_state" and t :: "'a AgentTask" and l :: "'a left_fields"
  assume "task_id ` set (pending_tasks s) \<subseteq> task_id ` set (pending_tasks st)"
  then show "task_id ` set (pending_tasks (record_escape s t l))
      \<subseteq> task_id ` set (pending_tasks st)"
    by (simp add: pending_ids_record_escape)
qed simp_all

lemma run_loop_guarded_inv:
  fixes prov :: "'r AgentTask \<Rightarrow> 'r outcome"
  assumes rec: "\<And>s t. I s \<Longrightarrow> task_id t \<in> T \<Longrightarrow> I (record_result s (execute_task prov t))"
    and esc: "\<And>s t l. I s \<Longrightarrow> task_id t \<in> T \<Longrightarrow> I (record_escape s t l)"
    and run: "run_loop_guarded prov escapes n st = Some e"
    and "I st" and "task_id ` set (pending_tasks st) \<subseteq> T"
  shows "I (end_state e)"
proof -
  have "prov = prov \<longrightarrow> I st \<longrightarrow> task_id ` set (pending_tasks st) \<subseteq> T \<longrightarrow> I (end_state e)"
  proof (rule run_loop_guarded.raw_induct[where
        P = "\<lambda>p es n s y. p = prov \<longrightarrow> I s \<longrightarrow> task_id ` set (pending_tasks s) \<subseteq> T
               \<longrightarrow> I (end_state y)", OF _ run])
    fix loop :: "('r AgentTask \<Rightarrow> 'r outcome) \<Rightarrow> (nat \<Rightarrow> 'r AgentTask \<Rightarrow> 'r left_fields option)
        \<Rightarrow> nat \<Rightarrow> 'r sched_state \<Rightarrow> 'r run_end option"
    fix p es n and s :: "'r sched_state" and y
    assume IH: "\<And>p es n s y. loop p es n s = Some y \<Longrightarrow>
        p = prov \<longrightarrow> I s \<longrightarrow> task_id ` set (pending_tasks s) \<subseteq> T \<longrightarrow> I (end_state y)"
      and body: "(if pending_tasks s = [] then Some (Ended s)
         else if ready_tasks s = [] then Some (Ended s)
         else case run_iteration_guarded p (es n) s of
                Inl st' \<Rightarrow> Some (Aborted st')
              | Inr st' \<Rightarrow> loop p es (Suc n) st') = Some y"
    show "p = prov \<longrightarrow> I s \<longrightarrow> task_id ` set (pending_tasks s) \<subseteq> T \<longrightarrow> I (end_state y)"
    proof (intro impI)
      assume p: "p = prov" and i: "I s" and sub: "task_id ` set (pending_tasks s) \<subseteq> T"
      show "I (end_state y)"
      proof (cases "pending_tasks s = [] \<or> ready_tasks s = []")
        case True
        with body i show ?thesis by (auto split: if_splits)
      next
        case False
        have inv: "case run_iteration_guarded prov (es n) s of Inl s' \<Rightarrow> I s' | Inr s' \<Rightarrow> I s'"
          using i sub by (intro run_iteration_guarded_inv[where T = T and I = I] rec esc)
        note ids = pending_ids_run_iteration_guarded[where prov = prov and e = "es n" and st = s]
        show ?thesis
        proof (cases "run_iteration_guarded prov (es n) s")
          case (Inl s')
          with False body p inv show ?thesis by (auto split: if_splits)
        next
          case (Inr s')
          with False body p have "loop prov es (Suc n) s' = Some y"
            by (auto split: if_splits)
          from IH[OF this] inv ids Inr sub show ?thesis by auto
        qed
      qed
    qed
  qed
  with assms(4,5) show ?thesis by blast
qed

lemma run_loop_guarded_exit:
  assumes run: "run_loop_guarded prov escapes n st = Some e"
  shows "e = Ended (end_state e) \<longrightarrow>
     pending_tasks (end_state e) = [] \<or> ready_tasks (end_state e) = []"
proof (rule run_loop_guarded.raw_induct[where
      P = "\<lambda>p es n s y. y = Ended (end_state y) \<longrightarrow>
             pending_tasks (end_state y) = [] \<or> ready_tasks (end_state y) = []", OF _ run])
  fix loop :: "('a AgentTask \<Rightarrow> 'a outcome) \<Rightarrow> (nat \<Rightarrow> 'a AgentTask \<Rightarrow> 'a left_fields option)
      \<Rightarrow> nat \<Rightarrow> 'a sched_state \<Rightarrow> 'a run_end option"
  fix p es n and s :: "'a sched_state" and y
  assume IH: "\<And>p es n s y. loop p es n s = Some y \<Longrightarrow>
      y = Ended (end_state y) \<longrightarrow>
        pending_tasks (end_state y) = [] \<or> ready_tasks (end_state y) = []"
    and body: "(if pending_tasks s = [] then Some (Ended s)
       else if ready_tasks s = [] then Some (Ended s)
       else case run_iteration_guarded p (es n) s of
              Inl st' \<Rightarrow> Some (Aborted st')
            | Inr st' \<Rightarrow> loop p es (Suc n) st') = Some y"
  show "y = Ended (end_state y) \<longrightarrow>
        pending_tasks (end_state y) = [] \<or> ready_tasks (end_state y) = []"
  proof (cases "pending_tasks s = [] \<or> ready_tasks s = []")
    case True
    with body show ?thesis by (auto split: if_splits)
  next
    case False
    show ?thesis
    proof (cases "run_iteration_guarded p (es n) s")
      case (Inl s')
      with False body show ?thesis by (auto split: if_splits)
    next
      case (Inr s')
      with False body have "loop p es (Suc n) s' = Some y" by (auto split: if_splits)
      from IH[OF this] show ?thesis .
    qed
  qed
qed

lemma results_terminal_guarded:
  fixes prov :: "'r AgentTask \<Rightarrow> 'r outcome"
  assumes "run_tasks_guarded prov escapes completed tasks = Some e"
  shows "\<forall>t\<in>set (completed_results (end_state e)). status t = Completed \<or> status t = Failed"
proof (rule run_loop_guarded_inv[where T = UNIV and prov = prov and
      I = "\<lambda>s. \<forall>t\<in>set (completed_results s). status t = Completed \<or> status t = Failed",
      OF _ _ assms[unfolded run_tasks_guarded_def]])
  fix s :: "'r sched_state" and t :: "'r AgentTask"
  assume "\<forall>t\<in>set (completed_results s). status t = Completed \<or> status t = Failed"
  then show "\<forall>u\<in>set (completed_results (record_result s (execute_task prov t))).
      status u = Completed \<or> status u = Failed"
    using status_execute_task[of prov t] by (auto simp: record_result_def)
qed simp_all

lemma results_pending_disjoint_guarded:
  fixes prov :: "'r AgentTask \<Rightarrow> 'r outcome"
  assumes "run_tasks_guarded prov escapes completed tasks = Some e"
  shows "task_id ` set (completed_results (end_state e))
     \<inter> task_id ` set (pending_tasks (end_state e)) = {}"
proof (rule run_loop_guarded_inv[where T = UNIV and prov = prov and
      I = "\<lambda>s. task_id ` set (completed_results s) \<inter> task_id ` set (pending_tasks s) = {}",
      OF _ _ assms[unfolded run_tasks_guarded_def]])
  fix s :: "'r sched_state" and t :: "'r AgentTask"
  assume "task_id ` set (completed_results s) \<inter> task_id ` set (pending_tasks s) = {}"
  then show "task_id ` set (completed_results (record_result s (execute_task prov t)))
      \<inter> task_id ` set (pending_tasks (record_result s (execute_task prov t))) = {}"
    by (auto simp: record_result_def)
next
  fix s :: "'r sched_state" and t :: "'r AgentTask" and l :: "'r left_fields"
  assume "task_id ` set (completed_results s) \<inter> task_id ` set (pending_tasks s) = {}"
  then show "task_id ` set (completed_results (record_escape s t l))
      \<inter> task_id ` set (pending_tasks (record_escape s t l)) = {}"
    by (simp add: pending_ids_record_escape)
qed simp_all

lemma pending_ids_guarded:
  fixes prov :: "'r AgentTask \<Rightarrow> 'r outcome"
  assumes "run_tasks_guarded prov escapes completed tasks = Some e"
  shows "task_id ` set (pending_tasks (end_state e)) \<subseteq> task_id ` set tasks"
proof -
  have "task_id ` set (pending_tasks (end_state e)) \<subseteq> task_id ` set (mk_pending tasks)"
  proof (rule run_loop_guarded_inv[where T = UNIV and prov = prov and
      I = "\<lambda>s. task_id ` set (pending_tasks s) \<subseteq> task_id ` set (mk_pending tasks)",
      OF _ _ assms[unfolded run_tasks_guarded_def]])
    fix s :: "'r sched_state" and t :: "'r AgentTask"
    assume "task_id ` set (pending_tasks s) \<subseteq> task_id ` set (mk_pending tasks)"
    then show "task_id ` set (pending_tasks (record_result s (execute_task prov t)))
        \<subseteq> task_id ` set (mk_pending tasks)"
      using pending_ids_record_result[of s "execute_task prov t"] by blast
  next
    fix s :: "'r sched_state" and t :: "'r AgentTask" and l :: "'r left_fields"
    assume "task_id ` set (pending_tasks s) \<subseteq> task_id ` set (mk_pending tasks)"
    then show "task_id ` set (pending_tasks (record_escape s t l))
        \<subseteq> task_id ` set (mk_pending tasks)"
      by (simp add: pending_ids_record_escape)
  qed simp_all
  then show ?thesis by (simp add: mk_pending_ids)
qed

text \<open>
  A dependency-free task whose call never returns keeps the loop going: it is left in
  \<open>pending_tasks\<close>, is ready again, and is dispatched again.
\<close>

lemma escaping_call_never_ends:
  fixes prov :: "'r AgentTask \<Rightarrow> 'r outcome"
  assumes all: "\<And>n t. escapes n t \<noteq> None"
    and run: "run_loop_guarded prov escapes n st = Some e"
  shows "\<not> (\<exists>u. pending_tasks st = [u] \<and> dependencies u = [])"
proof -
  have "escapes = escapes \<longrightarrow> \<not> (\<exists>u. pending_tasks st = [u] \<and> dependencies u = [])"
  proof (rule run_loop_guarded.raw_induct[where
      P = "\<lambda>p es n s y. es = escapes \<longrightarrow> \<not> (\<exists>u. pending_tasks s = [u] \<and> dependencies u = [])",
      OF _ run])
  fix loop :: "('r AgentTask \<Rightarrow> 'r outcome) \<Rightarrow> (nat \<Rightarrow> 'r AgentTask \<Rightarrow> 'r left_fields option)
      \<Rightarrow> nat \<Rightarrow> 'r sched_state \<Rightarrow> 'r run_end option"
  fix p es n and s :: "'r sched_state" and y
  assume IH: "\<And>p es n s y. loop p es n s = Some y \<Longrightarrow>
      es = escapes \<longrightarrow> \<not> (\<exists>u. pending_tasks s = [u] \<and> dependencies u = [])"
    and body: "(if pending_tasks s = [] then Some (Ended s)
       else if ready_tasks s = [] then Some (Ended s)
       else case run_iteration_guarded p (es n) s of
              Inl st' \<Rightarrow> Some (Aborted st')
            | Inr st' \<Rightarrow> loop p es (Suc n) st') = Some y"
  show "es = escapes \<longrightarrow> \<not> (\<exists>u. pending_tasks s = [u] \<and> dependencies u = [])"
  proof (intro impI notI)
    assume es: "es = escapes" and "\<exists>u. pending_tasks s = [u] \<and> dependencies u = []"
    then obtain u where u: "pending_tasks s = [u]" "dependencies u = []" by blast
    from all[of n u] obtain l where l: "escapes n u = Some l" by auto
    have ready: "ready_tasks s = [u]"
      using u by (simp add: ready_tasks_def check_dependencies_def)
    have it: "run_iteration_guarded p (escapes n) s = Inr (record_escape s u l)"
      using u l ready
      by (simp add: run_iteration_guarded_def Let_def parallel_step_def try_execute_task_def)
    from body u ready it es have "loop p escapes (Suc n) (record_escape s u l) = Some y"
      by simp
    from IH[OF this] have "\<not> (\<exists>v. pending_tasks (record_escape s u l) = [v] \<and> dependencies v = [])"
      by simp
    moreover have "pending_tasks (record_escape s u l) = [leave u l]"
      "dependencies (leave u l) = []"
      using u by (simp_all add: record_escape_def leave_def)
    ultimately show False by blast
  qed
  qed
  then show ?thesis by simp
qed


lemmas sched_eval = run_tasks_def run_loop.simps mk_pending_def
      new_task_def ready_tasks_def check_dependencies_def run_iteration_def Let_def
      priority_value_def record_result_def execute_task_def sequential_step_def

lemma acyclic_no_edges: "acyclic ({} :: ('a \<times> 'a) set)"
  by (simp add: acyclic_def)

lemma dep_rel_Nil: "dep_rel [] = {}"
  by (simp add: dep_rel_def)

lemma dep_rel_Cons:
  "dep_rel (t # ts) = (\<lambda>d. (d, task_id t)) ` set (dependencies t) \<union> dep_rel ts"
  by (auto simp: dep_rel_def)

lemma dep_rel_search_analysis:
  "dep_rel search_analysis_tasks = {(''search_001'', ''analysis_001'')}"
  by (simp add: dep_rel_Nil dep_rel_Cons search_analysis_tasks_def new_task_def)

text \<open>
  Claim C1, as amended. Whenever the run loop is left, nothing is pending or nothing is
  ready; every task handed to the aggregator is completed or failed; and a task still
  pending is a task of the run that is not among the returned tasks: nothing marks it.
  When every call of \<open>execute_task\<close> returns, the loop ends on every task list, the tasks
  left pending are the objects the parser handed in, untouched, and if moreover the
  dependency graph is acyclic, every dependency names a task of the run and every
  provider returns a result, nothing stays pending and every task of the run is returned
  completed. The loop does not end when the only pending task has no dependencies and
  its call never returns.
\<close>

theorem scheduler_stops_leaving_tasks_pending:
  fixes prov :: "'r AgentTask \<Rightarrow> 'r outcome"
  shows "(run_tasks_guarded prov escapes completed tasks = Some (Ended final) \<longrightarrow>
            (pending_tasks final = [] \<or> ready_tasks final = [])
          \<and> (\<forall>t\<in>set (completed_results final). status t = Completed \<or> status t = Failed)
          \<and> (\<forall>t\<in>set (pending_tasks final).
                 task_id t \<in> task_id ` set tasks
               \<and> task_id t \<notin> task_id ` set (completed_results final)))
   \<and> ((\<forall>n t. escapes n t = None) \<longrightarrow>
          run_tasks_guarded prov escapes completed tasks
            = Some (Ended (run_tasks prov completed tasks))
        \<and> set (pending_tasks (run_tasks prov completed tasks)) \<subseteq> set tasks
        \<and> (acyclic (dep_rel tasks) \<and> deps_resolved tasks \<and> all_succeed prov tasks \<longrightarrow>
              pending_tasks (run_tasks prov completed tasks) = []
            \<and> (\<forall>t\<in>set (completed_results (run_tasks prov completed tasks)).
                   status t = Completed)
            \<and> task_id ` set (completed_results (run_tasks prov completed tasks))
                = task_id ` set tasks))
   \<and> ((\<forall>n t. escapes n t \<noteq> None) \<and> mk_pending tasks = [u] \<and> dependencies u = [] \<longrightarrow>
          run_tasks_guarded prov escapes completed tasks = None)"
proof (intro conjI impI)
  assume run: "run_tasks_guarded prov escapes completed tasks = Some (Ended final)"
  from run_loop_guarded_exit[OF run[unfolded run_tasks_guarded_def]]
  show "pending_tasks final = [] \<or> ready_tasks final = []" by simp
  from results_terminal_guarded[OF run]
  show "\<forall>t\<in>set (completed_results final). status t = Completed \<or> status t = Failed"
    by simp
  from pending_ids_guarded[OF run] results_pending_disjoint_guarded[OF run]
  show "\<forall>t\<in>set (pending_tasks final).
          task_id t \<in> task_id ` set tasks
          \<and> task_id t \<notin> task_id ` set (completed_results final)"
    by auto
next
  assume "\<forall>n t. escapes n t = None"
  then show "run_tasks_guarded prov escapes completed tasks
      = Some (Ended (run_tasks prov completed tasks))"
    by (intro run_tasks_guarded_no_escape) simp
next
  show "set (pending_tasks (run_tasks prov completed tasks)) \<subseteq> set tasks"
    using pending_run_tasks_subset[of prov completed tasks] mk_pending_subset[of tasks]
    by blast
next
  let ?f = "run_tasks prov completed tasks"
  assume h: "acyclic (dep_rel tasks) \<and> deps_resolved tasks \<and> all_succeed prov tasks"
  then show empty: "pending_tasks ?f = []"
    by (intro acyclic_run_completes) simp_all
  from h show "\<forall>t\<in>set (completed_results ?f). status t = Completed"
    using completed_invariant[of prov tasks completed] by blast
  from empty results_or_pending[of tasks prov completed] results_ids_subset[of prov completed tasks]
  show "task_id ` set (completed_results ?f) = task_id ` set tasks"
    by (auto simp: mk_pending_ids)
next
  assume h: "(\<forall>n t. escapes n t \<noteq> None) \<and> mk_pending tasks = [u] \<and> dependencies u = []"
  show "run_tasks_guarded prov escapes completed tasks = None"
  proof (cases "run_tasks_guarded prov escapes completed tasks")
    case None
    then show ?thesis .
  next
    case (Some e)
    from h have "\<And>n t. escapes n t \<noteq> None" by simp
    from escaping_call_never_ends[OF this Some[unfolded run_tasks_guarded_def]] h
    show ?thesis by simp
  qed
qed

theorem scheduler_stops_leaving_tasks_pending_witness:
  "run_tasks_guarded always_done (\<lambda>n t. None) Map.empty search_analysis_tasks
     = Some (Ended (run_tasks always_done Map.empty search_analysis_tasks))
   \<and> acyclic (dep_rel search_analysis_tasks) \<and> deps_resolved search_analysis_tasks
   \<and> all_succeed always_done search_analysis_tasks
   \<and> pending_tasks (run_tasks always_done Map.empty search_analysis_tasks) = []
   \<and> task_id ` set (completed_results (run_tasks always_done Map.empty search_analysis_tasks))
        = {''search_001'', ''analysis_001''}
   \<and> run_tasks_guarded always_done (\<lambda>n t. Some (Running, None, None)) Map.empty
        [new_task ''search_001'' SEARCH HIGH []] = None"
proof -
  have a: "acyclic (dep_rel search_analysis_tasks)"
    by (simp add: dep_rel_search_analysis acyclic_no_edges)
  have b: "deps_resolved search_analysis_tasks"
    by (simp add: deps_resolved_def search_analysis_tasks_def new_task_def)
  have c: "all_succeed always_done search_analysis_tasks"
    by (simp add: all_succeed_def always_done_def)
  have d: "task_id ` set search_analysis_tasks = {''search_001'', ''analysis_001''}"
    by (simp add: search_analysis_tasks_def new_task_def)
  have e: "mk_pending [new_task ''search_001'' SEARCH HIGH []]
      = [new_task ''search_001'' SEARCH HIGH [] :: nat AgentTask]"
    "dependencies (new_task ''search_001'' SEARCH HIGH [] :: nat AgentTask) = []"
    by (simp_all add: mk_pending_def new_task_def)
  from scheduler_stops_leaving_tasks_pending[of always_done "\<lambda>n t. None" Map.empty
      search_analysis_tasks "run_tasks always_done Map.empty search_analysis_tasks"]
    a b c d
  have first: "run_tasks_guarded always_done (\<lambda>n t. None) Map.empty search_analysis_tasks
     = Some (Ended (run_tasks always_done Map.empty search_analysis_tasks))
   \<and> pending_tasks (run_tasks always_done Map.empty search_analysis_tasks) = []
   \<and> task_id ` set (completed_results (run_tasks always_done Map.empty search_analysis_tasks))
        = {''search_001'', ''analysis_001''}"
    by simp
  from scheduler_stops_leaving_tasks_pending[of always_done
      "\<lambda>n t. Some (Running, None, None)" Map.empty "[new_task ''search_001'' SEARCH HIGH []]"
      undefined "new_task ''search_001'' SEARCH HIGH []"] e
  have "run_tasks_guarded always_done (\<lambda>n t. Some (Running, None, None)) Map.empty
        [new_task ''search_001'' SEARCH HIGH []] = None"
    by simp
  with first a b c show ?thesis by simp
qed

text \<open>
  Claim C1 as stated fails on an acyclic graph: the search raises, the analysis that
  depends on it is never ready, the loop breaks, and the analysis task is left as it
  was, with status pending and no error, outside the returned tasks.
\<close>

theorem scheduler_leaves_dependent_pending_counterexample:
  "acyclic (dep_rel search_analysis_tasks)
   \<and> run_tasks_guarded search_raises (\<lambda>n t. None) Map.empty search_analysis_tasks
       = Some (Ended (run_tasks search_raises Map.empty search_analysis_tasks))
   \<and> pending_tasks (run_tasks search_raises Map.empty search_analysis_tasks)
       = [new_task ''analysis_001'' ANALYSIS MEDIUM [''search_001'']]
   \<and> map (\<lambda>t. (status t, error t))
        (pending_tasks (run_tasks search_raises Map.empty search_analysis_tasks))
       = [(Pending, None)]
   \<and> map (\<lambda>t. (task_id t, status t))
        (completed_results (run_tasks search_raises Map.empty search_analysis_tasks))
       = [(''search_001'', Failed)]"
proof -
  have a: "acyclic (dep_rel search_analysis_tasks)"
    by (simp add: dep_rel_search_analysis acyclic_no_edges)
  have b: "pending_tasks (run_tasks search_raises Map.empty search_analysis_tasks)
       = [new_task ''analysis_001'' ANALYSIS MEDIUM [''search_001'']]"
    by (simp add: sched_eval search_analysis_tasks_def search_raises_def)
  have c: "map (\<lambda>t. (task_id t, status t))
        (completed_results (run_tasks search_raises Map.empty search_analysis_tasks))
       = [(''search_001'', Failed)]"
    by (simp add: sched_eval search_analysis_tasks_def search_raises_def)
  have d: "run_tasks_guarded search_raises (\<lambda>n t. None) Map.empty search_analysis_tasks
       = Some (Ended (run_tasks search_raises Map.empty search_analysis_tasks))"
    by (rule run_tasks_guarded_no_escape) simp
  from a b c d show ?thesis by (simp add: new_task_def)
qed

text \<open>
  Claim C2 at its failing input. \<open>self.completed_tasks\<close> is never cleared and task
  identifiers repeat from one request to the next. A first request runs search,
  recommendation, comparison in dependency order. The same task list on the same
  orchestrator then finds every dependency already "completed" in the first pass, and
  the comparison (priority high) runs before the recommendation it depends on. When the
  search of the second request fails, the comparison still runs although its predecessor
  never does in that request.
\<close>

theorem stale_completed_tasks_break_dependency_order:
  "map task_id (completed_results (run_tasks always_done Map.empty complex_tasks))
     = [''llm_complex_001'', ''llm_complex_002'', ''llm_complex_003'']
   \<and> map task_id (completed_results (run_tasks always_done
         (completed_tasks (run_tasks always_done Map.empty complex_tasks)) complex_tasks))
     = [''llm_complex_001'', ''llm_complex_003'', ''llm_complex_002'']
   \<and> map (\<lambda>t. (task_id t, status t)) (completed_results (run_tasks search_raises
         (completed_tasks (run_tasks always_done Map.empty complex_tasks)) complex_tasks))
     = [(''llm_complex_001'', Failed), (''llm_complex_003'', Completed)]"
proof -
  have a: "map task_id (completed_results (run_tasks always_done Map.empty complex_tasks))
     = [''llm_complex_001'', ''llm_complex_002'', ''llm_complex_003'']"
    by (simp add: sched_eval complex_tasks_def always_done_def)
  have b: "map task_id (completed_results (run_tasks always_done
         (completed_tasks (run_tasks always_done Map.empty complex_tasks)) complex_tasks))
     = [''llm_complex_001'', ''llm_complex_003'', ''llm_complex_002'']"
    by (simp add: sched_eval complex_tasks_def always_done_def)
  have c: "map (\<lambda>t. (task_id t, status t)) (completed_results (run_tasks search_raises
         (completed_tasks (run_tasks always_done Map.empty complex_tasks)) complex_tasks))
     = [(''llm_complex_001'', Failed), (''llm_complex_003'', Completed)]"
    by (simp add: sched_eval complex_tasks_def always_done_def search_raises_def)
  from a b c show ?thesis by simp
qed

lemma results_are_executions:
  fixes prov :: "'r AgentTask \<Rightarrow> 'r outcome"
  shows "\<forall>r\<in>set (completed_results (run_tasks prov completed tasks)).
           \<exists>t\<in>set (mk_pending tasks). r = execute_task prov t"
  unfolding run_tasks_def
proof (rule run_loop_inv[where T = "set (mk_pending tasks)" and
      I = "\<lambda>s. \<forall>r\<in>set (completed_results s). \<exists>t\<in>set (mk_pending tasks). r = execute_task prov t"])
  fix s :: "'r sched_state" and t :: "'r AgentTask"
  assume "\<forall>r\<in>set (completed_results s). \<exists>t\<in>set (mk_pending tasks). r = execute_task prov t"
    and "t \<in> set (mk_pending tasks)"
  then show "\<forall>r\<in>set (completed_results (record_result s (execute_task prov t))).
      \<exists>t\<in>set (mk_pending tasks). r = execute_task prov t"
    by (auto simp: record_result_def)
qed simp_all

lemma same_id_same_task:
  "t \<in> set (mk_pending tasks) \<Longrightarrow> u \<in> set (mk_pending tasks) \<Longrightarrow> task_id t = task_id u
     \<Longrightarrow> t = u"
  using mk_pending_distinct[of tasks] by (auto simp: distinct_map inj_on_def)

lemma blocked_dependent_stays_pending:
  fixes prov :: "'r AgentTask \<Rightarrow> 'r outcome"
  assumes P: "P \<in> set (mk_pending tasks)" and D: "D \<in> set (mk_pending tasks)"
    and dep: "task_id P \<in> set (dependencies D)"
    and fails: "status (execute_task prov P) \<noteq> Completed"
    and fresh: "\<forall>c. completed (task_id P) = Some c \<longrightarrow> status c \<noteq> Completed"
  shows "(\<forall>c. completed_tasks (run_tasks prov completed tasks) (task_id P) = Some c
              \<longrightarrow> status c \<noteq> Completed)
         \<and> D \<in> set (pending_tasks (run_tasks prov completed tasks))"
  unfolding run_tasks_def
proof (rule run_loop_inv[where T = "set (mk_pending tasks)" and
      I = "\<lambda>s. (\<forall>c. completed_tasks s (task_id P) = Some c \<longrightarrow> status c \<noteq> Completed)
               \<and> D \<in> set (pending_tasks s)"])
  fix s :: "'r sched_state" and t :: "'r AgentTask"
  assume I: "(\<forall>c. completed_tasks s (task_id P) = Some c \<longrightarrow> status c \<noteq> Completed)
               \<and> D \<in> set (pending_tasks s)"
    and t: "t \<in> set (mk_pending tasks)"
    and chk: "check_dependencies (completed_tasks s) t"
  have "\<not> check_dependencies (completed_tasks s) D"
    using I dep by (auto simp: check_dependencies_def list_all_iff split: option.splits)
  with chk have "t \<noteq> D" by blast
  with t D have ne: "task_id t \<noteq> task_id D"
    using same_id_same_task by blast
  have a: "D \<in> set (pending_tasks (record_result s (execute_task prov t)))"
    using I ne by (auto simp: record_result_def)
  have b: "\<forall>c. completed_tasks (record_result s (execute_task prov t)) (task_id P) = Some c
              \<longrightarrow> status c \<noteq> Completed"
  proof (cases "task_id t = task_id P")
    case True
    with t P have "t = P" using same_id_same_task by blast
    with fails show ?thesis by (simp add: record_result_def)
  next
    case False
    with I show ?thesis by (simp add: record_result_def)
  qed
  from a b show "(\<forall>c. completed_tasks (record_result s (execute_task prov t)) (task_id P) = Some c
              \<longrightarrow> status c \<noteq> Completed)
         \<and> D \<in> set (pending_tasks (record_result s (execute_task prov t)))"
    by blast
qed (use fresh D in simp_all)

text \<open>
  Claim C3, as amended. When a task of the run ended as failed and no earlier run left a
  completed record under its identifier, a task that lists it as a dependency is never
  dispatched: it stays in the pending dictionary as the parser created it, it is not
  executed and it is not among the returned tasks (so it is not marked failed either).
\<close>

theorem failed_predecessor_blocks_dependent:
  fixes prov :: "'r AgentTask \<Rightarrow> 'r outcome"
  assumes "D \<in> set (mk_pending tasks)"
    and "p \<in> set (completed_results (run_tasks prov completed tasks))"
    and "status p = Failed"
    and "task_id p \<in> set (dependencies D)"
    and "\<forall>c. completed (task_id p) = Some c \<longrightarrow> status c \<noteq> Completed"
  shows "D \<in> set (pending_tasks (run_tasks prov completed tasks))
         \<and> task_id D \<notin> task_id ` set (completed_results (run_tasks prov completed tasks))"
proof -
  from assms(2) results_are_executions[of prov completed tasks]
  obtain P where P: "P \<in> set (mk_pending tasks)" and pP: "p = execute_task prov P"
    by blast
  from pP assms(3) have fails: "status (execute_task prov P) \<noteq> Completed" by simp
  from pP have id: "task_id p = task_id P" by simp
  have "D \<in> set (pending_tasks (run_tasks prov completed tasks))"
    using blocked_dependent_stays_pending[OF P assms(1) _ fails, of completed] assms(4,5) id
    by simp
  with results_pending_disjoint[of prov completed tasks] show ?thesis by blast
qed

theorem failed_predecessor_blocks_dependent_witness:
  "new_task ''recommendation_002'' RECOMMENDATION MEDIUM [''search_rec_001'']
      \<in> set (pending_tasks (run_tasks search_raises Map.empty search_rec_tasks))
   \<and> ''recommendation_002''
      \<notin> task_id ` set (completed_results (run_tasks search_raises Map.empty search_rec_tasks))"
proof -
  let ?D = "new_task ''recommendation_002'' RECOMMENDATION MEDIUM [''search_rec_001''] :: nat AgentTask"
  let ?p = "execute_task search_raises (new_task ''search_rec_001'' SEARCH HIGH [])"
  have a: "?D \<in> set (mk_pending search_rec_tasks)"
    by (simp add: mk_pending_def search_rec_tasks_def new_task_def)
  have b: "completed_results (run_tasks search_raises Map.empty search_rec_tasks) = [?p]"
    by (simp add: sched_eval search_rec_tasks_def search_raises_def)
  have c: "status ?p = Failed"
    by (simp add: execute_task_def search_raises_def new_task_def)
  have d: "task_id ?p \<in> set (dependencies ?D)"
    by (simp add: new_task_def)
  have e: "task_id ?D = ''recommendation_002''" by (simp add: new_task_def)
  from failed_predecessor_blocks_dependent[of ?D search_rec_tasks ?p search_raises Map.empty]
    a b c d e show ?thesis by simp
qed

text \<open>
  Claim C3 as stated fails: the search raises, and the recommendation that depends on it
  is not executed; the run returns the failed search alone.
\<close>

theorem failed_predecessor_dependent_not_run_counterexample:
  "map (\<lambda>t. (task_id t, status t))
       (completed_results (run_tasks search_raises Map.empty search_rec_tasks))
     = [(''search_rec_001'', Failed)]
   \<and> map (\<lambda>t. (task_id t, status t))
       (pending_tasks (run_tasks search_raises Map.empty search_rec_tasks))
     = [(''recommendation_002'', Pending)]"
proof -
  have a: "map (\<lambda>t. (task_id t, status t))
       (completed_results (run_tasks search_raises Map.empty search_rec_tasks))
     = [(''search_rec_001'', Failed)]"
    by (simp add: sched_eval search_rec_tasks_def search_raises_def)
  have b: "map (\<lambda>t. (task_id t, status t))
       (pending_tasks (run_tasks search_raises Map.empty search_rec_tasks))
     = [(''recommendation_002'', Pending)]"
    by (simp add: sched_eval search_rec_tasks_def search_raises_def)
  from a b show ?thesis by simp
qed

















lemma rrf_pass_not_Nil: "ds \<noteq> [] \<or> acc \<noteq> [] \<Longrightarrow> rrf_pass w n ds acc \<noteq> []"
proof (induction ds arbitrary: n acc)
  case Nil
  then show ?case by simp
next
  case (Cons d ds)
  have "score_add (doc_id d) (w * (1 / of_nat (RANK_CONSTANT + (n + 1)))) acc \<noteq> []"
    by (cases acc) (auto split: if_splits)
  with Cons.IH show ?case by simp
qed



lemma ranked_results_Nil_iff: "ranked_results ts vs = [] \<longleftrightarrow> ts = [] \<and> vs = []"
proof
  assume "ranked_results ts vs = []"
  then show "ts = [] \<and> vs = []"
    using rrf_pass_not_Nil[of vs "rrf_pass TEXT_WEIGHT 0 ts []" VECTOR_WEIGHT 0]
      rrf_pass_not_Nil[of ts "[]" TEXT_WEIGHT 0]
    by (auto simp: ranked_results_def)
qed (simp add: ranked_results_def)



































end
